theory Spec2Isabelle
  imports Complex_Main
begin

section \<open>The synchronisation engine of the FTP worker\<close>

text \<open>
  A shallow embedding of \<^verbatim>\<open>src/core/ftp_worker.py\<close> (class \<^verbatim>\<open>FtpWorker\<close>): the recursive
  traversal \<^verbatim>\<open>download_dir_recursive\<close> with its listing step, skip decision, stability
  polling and temp-file download, and the cycle functions \<^verbatim>\<open>perform_ftp_download\<close>,
  \<^verbatim>\<open>_get_or_create_ftp_connection\<close>, \<^verbatim>\<open>_reset_connections\<close>, \<^verbatim>\<open>_cleanup_connections\<close>,
  \<^verbatim>\<open>_perform_periodic_cleanup\<close> and one iteration of \<^verbatim>\<open>run\<close>.

  The worker's attributes, the local file system and the two logs (events given to the
  event sink, commands sent to the server) are fields of one state record that every
  function takes and returns. What the server answers is given by a tree of remote nodes.
  Every Python exception is a branch of the model.
\<close>

subsection \<open>Settings, events, commands\<close>

type_synonym path = string

text \<open>
  The keys of \<^verbatim>\<open>self.settings\<close> that the engine reads. A numeric key is \<open>None\<close> when
  \<^verbatim>\<open>int(...)\<close> raises on the stored value; a path key is \<open>None\<close> when the key is missing
  (\<^verbatim>\<open>self.settings['remote_path']\<close> raises \<^verbatim>\<open>KeyError\<close>).
\<close>

record settings =
  interval :: "int option"
  remote_path :: "path option"
  local_path :: "path option"
  skip_log_limit :: "int option"
  delete_after_download :: bool
  EnableFileStability :: bool
  FileStabilityWait :: "int option"
  per_file_timeout :: "int option"

text \<open>
  One event for each place where the source calls \<^verbatim>\<open>self.log_message.emit\<close> together with
  one of the \<^verbatim>\<open>log_*\<close> functions.
\<close>

datatype event =
    EvMlsdFailed
  | EvNlstFailed
  | EvSkipping path
  | EvDeletedSkipped path
  | EvDeleted path
  | EvDeleteError path
  | EvDownloading path
  | EvUnstable path
  | EvFileStable path
  | EvDownloadComplete path "int option"
  | EvDownloadError path
  | EvProcessDirError path
  | EvCycleStart int
  | EvCycleEnd int
  | EvLoopError int
  | EvConnecting nat
  | EvConnected
  | EvConnectFailed nat
  | EvFtpError
  | EvReset int
  | EvPeriodicCleanup

datatype ftp_cmd =
    CWD path
  | MLSD
  | NLST
  | SIZE path
  | RETR path
  | DELE path
  | PWD
  | QUIT
  | CONNECT

subsection \<open>The local file system\<close>

text \<open>
  A flat map from path strings to nodes. Parent directories are not tracked: opening a
  file for writing fails only where the path itself is a directory.
\<close>

datatype lnode = LFile string | LDir

type_synonym local_fs = "path \<Rightarrow> lnode option"

definition os_path_exists :: "local_fs \<Rightarrow> path \<Rightarrow> bool" where
  "os_path_exists f p = (f p \<noteq> None)"

text \<open>\<^verbatim>\<open>os.path.getsize\<close>: \<open>None\<close> is \<^verbatim>\<open>OSError\<close>; a directory has the size of its inode block.\<close>

definition os_path_getsize :: "local_fs \<Rightarrow> path \<Rightarrow> int option" where
  "os_path_getsize f p =
     (case f p of
        None \<Rightarrow> None
      | Some (LFile c) \<Rightarrow> Some (int (length c))
      | Some LDir \<Rightarrow> Some 4096)"

definition os_makedirs :: "local_fs \<Rightarrow> path \<Rightarrow> local_fs" where
  "os_makedirs f p = f(p \<mapsto> LDir)"

text \<open>\<^verbatim>\<open>open(p, 'wb')\<close>: creates or truncates; \<open>None\<close> is \<^verbatim>\<open>IsADirectoryError\<close>.\<close>

definition open_wb :: "local_fs \<Rightarrow> path \<Rightarrow> local_fs option" where
  "open_wb f p = (if f p = Some LDir then None else Some (f(p \<mapsto> LFile [])))"

text \<open>
  \<^verbatim>\<open>os.replace(src, dst)\<close>, and \<^verbatim>\<open>os.rename(src, dst)\<close> after it: both raise where the
  source is missing or the destination is a directory, and otherwise move the source over
  the destination in one step.
\<close>

definition os_replace :: "local_fs \<Rightarrow> path \<Rightarrow> path \<Rightarrow> local_fs option" where
  "os_replace f src dst =
     (case f src of
        None \<Rightarrow> None
      | Some n \<Rightarrow> if f dst = Some LDir then None else Some ((f(src := None))(dst \<mapsto> n)))"

text \<open>\<^verbatim>\<open>os.path.join(a, p)\<close> with one component, on POSIX.\<close>

definition os_path_join :: "path \<Rightarrow> string \<Rightarrow> path" where
  "os_path_join a p =
     (if p \<noteq> [] \<and> hd p = CHR ''/'' then p
      else if a = [] \<or> last a = CHR ''/'' then a @ p
      else a @ ''/'' @ p)"

text \<open>\<^verbatim>\<open>str.replace('//', '/')\<close>: non-overlapping occurrences, left to right.\<close>

fun replace_double_slash :: "string \<Rightarrow> string" where
  "replace_double_slash (a # b # cs) =
     (if a = CHR ''/'' \<and> b = CHR ''/'' then CHR ''/'' # replace_double_slash cs
      else a # replace_double_slash (b # cs))"
| "replace_double_slash cs = cs"

definition remote_item_path :: "path \<Rightarrow> string \<Rightarrow> path" where
  "remote_item_path rp name = replace_double_slash (rp @ ''/'' @ name)"

subsection \<open>The remote tree\<close>

text \<open>
  What the server answers about one remote file during a cycle:
  \<^item> \<open>size_reply k\<close>: the result of the \<open>k\<close>-th \<^verbatim>\<open>ftp.size\<close> call for this file (\<open>None\<close>
    when the call raises or returns \<^verbatim>\<open>None\<close>);
  \<^item> \<open>size_fact\<close>: the \<^verbatim>\<open>size\<close> fact of its MLSD entry;
  \<^item> \<open>chunks\<close>: the data blocks that \<^verbatim>\<open>retrbinary\<close> passes to the callback;
  \<^item> \<open>retr_raises\<close>: \<^verbatim>\<open>retrbinary\<close> raises after these blocks (socket timeout, lost
    connection) instead of completing;
  \<^item> \<open>stop_at\<close>: the controlling thread sets \<^verbatim>\<open>stop_event\<close> just before the callback with
    this index;
  \<^item> \<open>dele_ok\<close>: \<^verbatim>\<open>ftp.delete\<close> succeeds.
\<close>

datatype size_fact = NoFact | BadFact | Fact int

record rfile =
  size_reply :: "nat \<Rightarrow> int option"
  size_fact :: size_fact
  chunks :: "string list"
  retr_raises :: bool
  stop_at :: "nat option"
  dele_ok :: bool

text \<open>
  What the server answers about a directory: whether \<^verbatim>\<open>ftp.cwd\<close> into it succeeds, what
  \<^verbatim>\<open>ftp.mlsd()\<close> does there (raises, returns an empty sequence, returns its entries), and
  whether \<^verbatim>\<open>ftp.nlst()\<close> succeeds.
\<close>

datatype mlsd_reply = MlsdRaises | MlsdEmpty | MlsdEntries

record rdir =
  cwd_ok :: bool
  mlsd_reply :: mlsd_reply
  nlst_ok :: bool

datatype rnode = RFile rfile | RDir rdir "(string \<times> rnode) list"

text \<open>A path that is not a regular file, used as one: every command on it fails.\<close>

definition no_file :: rfile where
  "no_file = \<lparr>size_reply = (\<lambda>_. None), size_fact = NoFact, chunks = [],
              retr_raises = True, stop_at = None, dele_ok = False\<rparr>"

fun as_file :: "rnode \<Rightarrow> rfile" where
  "as_file (RFile f) = f"
| "as_file (RDir d cs) = no_file"

fun cwd_succeeds :: "rnode \<Rightarrow> bool" where
  "cwd_succeeds (RFile f) = False"
| "cwd_succeeds (RDir d cs) = cwd_ok d"

text \<open>The facts dictionary of a listing entry: its \<^verbatim>\<open>type\<close> and \<^verbatim>\<open>size\<close> keys.\<close>

datatype ftype = TDir | TFile | TOther

record facts =
  ftype :: ftype
  fsize :: size_fact

subsection \<open>The state\<close>

text \<open>
  The attributes of the worker (\<^verbatim>\<open>_ftp_connection\<close>, reduced to the timeout of its control
  socket, \<^verbatim>\<open>_connection_failures\<close>, \<^verbatim>\<open>_mlsd_supported\<close>, \<^verbatim>\<open>_cycle_count\<close>, \<^verbatim>\<open>stop_event\<close>,
  \<^verbatim>\<open>last_download_time\<close>, \<^verbatim>\<open>_last_cleanup_time\<close>, \<^verbatim>\<open>notified_no_download\<close>), the local file
  system, and the two logs.
\<close>

record state =
  ftp_connection :: "int option"
  connection_failures :: int
  mlsd_supported :: "bool option"
  cycle_count :: int
  stop_event :: bool
  last_download_time :: int
  last_cleanup_time :: int
  notified_no_download :: bool
  fs :: local_fs
  events :: "event list"
  ftp_cmds :: "ftp_cmd list"

definition emit :: "event \<Rightarrow> state \<Rightarrow> state" where
  "emit e w = w\<lparr>events := events w @ [e]\<rparr>"

definition cmd :: "ftp_cmd \<Rightarrow> state \<Rightarrow> state" where
  "cmd c w = w\<lparr>ftp_cmds := ftp_cmds w @ [c]\<rparr>"

subsection \<open>Listing a directory (lines 166 to 197)\<close>

text \<open>
  An item of the listing is the name, the facts, and the remote node that the server has
  under that name (the node is what later commands on the item's path are answered from).
\<close>

type_synonym item = "string \<times> facts \<times> rnode"

fun mlsd_item :: "string \<times> rnode \<Rightarrow> item" where
  "mlsd_item (name, RFile f) = (name, \<lparr>ftype = TFile, fsize = size_fact f\<rparr>, RFile f)"
| "mlsd_item (name, RDir d cs) = (name, \<lparr>ftype = TDir, fsize = NoFact\<rparr>, RDir d cs)"

text \<open>
  The loop over the names of NLST: \<^verbatim>\<open>.\<close> and \<^verbatim>\<open>..\<close> are passed over, every other name is
  probed with \<^verbatim>\<open>ftp.cwd(name)\<close> and, where that succeeds, \<^verbatim>\<open>ftp.cwd('..')\<close>, which is
  taken to succeed after a \<^verbatim>\<open>cwd\<close> that did.
\<close>

fun nlst_probe :: "(string \<times> rnode) list \<Rightarrow> state \<Rightarrow> item list \<times> state" where
  "nlst_probe [] w = ([], w)"
| "nlst_probe ((name, node) # rest) w =
     (if name = ''.'' \<or> name = ''..'' then nlst_probe rest w
      else if cwd_succeeds node then
        (case nlst_probe rest (cmd (CWD ''..'') (cmd (CWD name) w)) of
           (items, w') \<Rightarrow> ((name, \<lparr>ftype = TDir, fsize = NoFact\<rparr>, node) # items, w'))
      else
        (case nlst_probe rest (cmd (CWD name) w) of
           (items, w') \<Rightarrow> ((name, \<lparr>ftype = TFile, fsize = NoFact\<rparr>, node) # items, w')))"

definition try_mlsd :: "rdir \<Rightarrow> (string \<times> rnode) list \<Rightarrow> state \<Rightarrow> item list \<times> state" where
  "try_mlsd d cs w =
     (if mlsd_supported w = None \<or> mlsd_supported w = Some True then
        (case mlsd_reply d of
           MlsdRaises \<Rightarrow> ([], emit EvMlsdFailed (cmd MLSD w\<lparr>mlsd_supported := Some False\<rparr>))
         | MlsdEmpty \<Rightarrow> ([], cmd MLSD w\<lparr>mlsd_supported := Some True\<rparr>)
         | MlsdEntries \<Rightarrow> (map mlsd_item cs, cmd MLSD w\<lparr>mlsd_supported := Some True\<rparr>))
      else ([], w))"

definition list_directory :: "rdir \<Rightarrow> (string \<times> rnode) list \<Rightarrow> state \<Rightarrow> item list \<times> state" where
  "list_directory d cs w =
     (case try_mlsd d cs w of
        (items, w1) \<Rightarrow>
          if items = [] then
            (if nlst_ok d then nlst_probe cs (cmd NLST w1)
             else ([], emit EvNlstFailed (cmd NLST w1)))
          else (items, w1))"

subsection \<open>The stability gate (lines 249 to 310)\<close>

text \<open>
  The polling loop. Time is counted in whole seconds: every pass sleeps
  \<^verbatim>\<open>check_interval = 1.0\<close> seconds and the time a size query takes is not counted, so
  \<open>remaining\<close> is the number of passes left before \<^verbatim>\<open>time.time() - start_t < wait_seconds\<close>
  fails. \<open>reads k\<close> is the \<open>k\<close>-th answer of \<^verbatim>\<open>ftp.size\<close>. The result is \<^verbatim>\<open>stable\<close> and the
  index of the next query.
\<close>

definition next_stable_count :: "int option \<Rightarrow> int option \<Rightarrow> nat \<Rightarrow> nat" where
  "next_stable_count cur_size prev_size stable_count =
     (if cur_size \<noteq> None \<and> cur_size = prev_size then stable_count + 1
      else (if cur_size \<noteq> None then 1 else 0))"

fun stability_loop :: "(nat \<Rightarrow> int option) \<Rightarrow> nat \<Rightarrow> nat \<Rightarrow> int option \<Rightarrow> nat \<Rightarrow> bool \<times> nat" where
  "stability_loop reads k 0 prev_size stable_count = (False, k)"
| "stability_loop reads k (Suc remaining) prev_size stable_count =
     (if next_stable_count (reads k) prev_size stable_count \<ge> 2 then (True, Suc k)
      else stability_loop reads (Suc k) remaining (reads k)
             (next_stable_count (reads k) prev_size stable_count))"

text \<open>
  \<^verbatim>\<open>enable_stability\<close> and \<^verbatim>\<open>wait_seconds\<close>; an exception while reading them turns the gate
  off.
\<close>

definition stability_settings :: "settings \<Rightarrow> bool \<times> int" where
  "stability_settings s =
     (case FileStabilityWait s of
        None \<Rightarrow> (False, 0)
      | Some n \<Rightarrow> (EnableFileStability s, n))"

text \<open>
  The initial size: the MLSD fact when the entry has one (\<open>None\<close> when \<^verbatim>\<open>int\<close> raises on
  it), else a \<^verbatim>\<open>ftp.size\<close> query. The query with index 0 is the one of the skip decision.
  The result is the size, the index of the next query, and the state.
\<close>

definition initial_size :: "path \<Rightarrow> facts \<Rightarrow> rfile \<Rightarrow> state \<Rightarrow> int option \<times> nat \<times> state" where
  "initial_size rip fa f w =
     (case fsize fa of
        Fact n \<Rightarrow> (Some n, 1, w)
      | BadFact \<Rightarrow> (None, 1, w)
      | NoFact \<Rightarrow> (size_reply f 1, 2, cmd (SIZE rip) w))"

text \<open>The gate: \<open>True\<close> lets the download go on, \<open>False\<close> is the \<^verbatim>\<open>continue\<close> of line 308.\<close>

definition stability_gate :: "settings \<Rightarrow> path \<Rightarrow> facts \<Rightarrow> rfile \<Rightarrow> state \<Rightarrow> bool \<times> state" where
  "stability_gate s rip fa f w =
     (case stability_settings s of
        (enable_stability, wait_seconds) \<Rightarrow>
          if enable_stability \<and> wait_seconds > 0 then
            (case initial_size rip fa f w of
               (None, q, w1) \<Rightarrow> (True, w1)
             | (Some i, q, w1) \<Rightarrow>
                 (case stability_loop (size_reply f) q (nat wait_seconds) (Some i) 1 of
                    (is_stable, q') \<Rightarrow>
                      if \<not> is_stable
                      then (False, emit (EvUnstable rip)
                                     (w1\<lparr>ftp_cmds := ftp_cmds w1 @ replicate (q' - q) (SIZE rip)\<rparr>))
                      else (True, emit (EvFileStable rip)
                                    (w1\<lparr>ftp_cmds := ftp_cmds w1 @ replicate (q' - q) (SIZE rip)\<rparr>))))
          else (True, w))"

subsection \<open>Downloading one file (lines 312 to 369)\<close>

text \<open>The argument of \<^verbatim>\<open>sock.settimeout(max(10, per_file_timeout // 2))\<close>.\<close>

definition socket_timeout :: "int \<Rightarrow> int" where
  "socket_timeout t = max 10 (t div 2)"

text \<open>
  \<^verbatim>\<open>sock.settimeout\<close> raises \<^verbatim>\<open>OverflowError\<close> for a timeout that, taken to nanoseconds, does
  not fit a signed 64-bit integer: the largest number of whole seconds it accepts, on a
  POSIX build of CPython. Line 333 passes over the exception, and the socket keeps the
  timeout it had.
\<close>

definition settimeout_max :: int where
  "settimeout_max = 9223372036"

definition settimeout :: "int \<Rightarrow> int option \<Rightarrow> int option" where
  "settimeout v sock =
     (case sock of
        None \<Rightarrow> None
      | Some old_timeout \<Rightarrow> if v \<le> settimeout_max then Some v else Some old_timeout)"

text \<open>
  \<^verbatim>\<open>ftp.retrbinary\<close> with the callback \<^verbatim>\<open>_write_and_count\<close>: the callback raises
  \<^verbatim>\<open>InterruptedError\<close> when \<^verbatim>\<open>stop_event\<close> is set and writes the block otherwise. The result
  is whether every block was written, and the bytes written.
\<close>

fun retrbinary :: "(nat \<Rightarrow> bool) \<Rightarrow> nat \<Rightarrow> string list \<Rightarrow> string \<Rightarrow> bool \<times> string" where
  "retrbinary is_set i [] written = (True, written)"
| "retrbinary is_set i (c # cs) written =
     (if is_set i then (False, written) else retrbinary is_set (Suc i) cs (written @ c))"

definition stop_is_set :: "state \<Rightarrow> rfile \<Rightarrow> nat \<Rightarrow> bool" where
  "stop_is_set w f i = (stop_event w \<or> (case stop_at f of None \<Rightarrow> False | Some k \<Rightarrow> k \<le> i))"

definition delete_remote :: "event \<Rightarrow> path \<Rightarrow> rfile \<Rightarrow> state \<Rightarrow> state" where
  "delete_remote success rip f w =
     (if dele_ok f then emit success (cmd (DELE rip) w)
      else emit (EvDeleteError rip) (cmd (DELE rip) w))"

text \<open>
  The body of the inner \<^verbatim>\<open>try\<close> from line 312 on. The result is whether \<^verbatim>\<open>count += 1\<close> was
  reached. Every exception ends in the handler of line 367, which only logs.
\<close>

definition download_file :: "settings \<Rightarrow> path \<Rightarrow> path \<Rightarrow> rfile \<Rightarrow> state \<Rightarrow> bool \<times> state" where
  "download_file s rip lip f w =
     (let temp_local = lip @ ''.part'' in
      case open_wb (fs w) temp_local of
        None \<Rightarrow> (False, emit (EvDownloadError rip) w)
      | Some fs1 \<Rightarrow>
          (case per_file_timeout s of
             None \<Rightarrow> (False, emit (EvDownloadError rip) (w\<lparr>fs := fs1\<rparr>))
           | Some t \<Rightarrow>
               (case retrbinary (stop_is_set w f) 0 (chunks f) [] of
                  (completed, written) \<Rightarrow>
                    (let w2 = cmd (RETR rip)
                               (w\<lparr>fs := fs1(temp_local \<mapsto> LFile written),
                                  ftp_connection := settimeout (socket_timeout t) (ftp_connection w),
                                  stop_event := (stop_event w \<or> \<not> completed)\<rparr>)
                     in if \<not> completed \<or> retr_raises f then (False, emit (EvDownloadError rip) w2)
                        else
                          (case os_replace (fs w2) temp_local lip of
                             None \<Rightarrow> (False, emit (EvDownloadError rip) w2)
                           | Some fs3 \<Rightarrow>
                               (let w3 = emit (EvDownloadComplete rip (os_path_getsize fs3 lip))
                                           (w2\<lparr>fs := fs3\<rparr>)
                                in (True, if delete_after_download s
                                          then delete_remote (EvDeleted rip) rip f w3
                                          else w3)))))))"

subsection \<open>One file of the listing (lines 213 to 369)\<close>

text \<open>The test of lines 222 to 224; an exception of \<^verbatim>\<open>getsize\<close> is passed over (line 242).\<close>

definition already_downloaded :: "local_fs \<Rightarrow> path \<Rightarrow> int option \<Rightarrow> bool" where
  "already_downloaded f lip remote_size =
     (os_path_exists f lip \<and> remote_size \<noteq> None \<and>
      (case os_path_getsize f lip of None \<Rightarrow> False | Some local_size \<Rightarrow> Some local_size = remote_size))"

text \<open>
  The accumulator is the state, \<^verbatim>\<open>count\<close> and \<^verbatim>\<open>skip_logs_shown\<close> of the enclosing call of
  \<^verbatim>\<open>download_dir_recursive\<close>.
\<close>

definition process_file ::
  "settings \<Rightarrow> int \<Rightarrow> path \<Rightarrow> path \<Rightarrow> facts \<Rightarrow> rfile \<Rightarrow> state \<times> nat \<times> nat \<Rightarrow> state \<times> nat \<times> nat" where
  "process_file s limit rip lip fa f acc =
     (case acc of
        (w, count, skip_logs_shown) \<Rightarrow>
          (let remote_size = size_reply f 0;
               w0 = cmd (SIZE rip) w
           in if already_downloaded (fs w0) lip remote_size then
                (let w1 = (if int skip_logs_shown < limit then emit (EvSkipping rip) w0 else w0);
                     shown1 = (if int skip_logs_shown < limit then Suc skip_logs_shown
                               else skip_logs_shown);
                     w2 = (if delete_after_download s
                           then delete_remote (EvDeletedSkipped rip) rip f w1 else w1)
                 in (w2, count, shown1))
              else
                (case stability_gate s rip fa f (emit (EvDownloading rip) w0) of
                   (ok, w2) \<Rightarrow>
                     if \<not> ok then (w2, count, skip_logs_shown)
                     else
                       (case download_file s rip lip f w2 of
                          (downloaded, w3) \<Rightarrow>
                            (w3, if downloaded then Suc count else count, skip_logs_shown)))))"

subsection \<open>The traversal (lines 159 to 373)\<close>

text \<open>
  \<^verbatim>\<open>download_dir_recursive\<close> and its loop over the items. The first argument of the node
  is what the server holds at \<open>rp\<close>. An exception of \<^verbatim>\<open>ftp.cwd\<close> or of reading
  \<^verbatim>\<open>skip_log_limit\<close> ends in the handler of line 370, with \<^verbatim>\<open>count\<close> still 0; the
  loop body raises nothing that its own handlers do not catch.
\<close>

fun node_size :: "rnode \<Rightarrow> nat" where
  "node_size (RFile f) = 1"
| "node_size (RDir d cs) = Suc (sum_list (map (\<lambda>e. Suc (node_size (snd e))) cs))"

definition items_size :: "item list \<Rightarrow> nat" where
  "items_size items = sum_list (map (\<lambda>e. Suc (node_size (snd (snd e)))) items)"

function download_dir_recursive :: "settings \<Rightarrow> path \<Rightarrow> path \<Rightarrow> rnode \<Rightarrow> state \<Rightarrow> state \<times> nat"
  and process_items ::
    "settings \<Rightarrow> path \<Rightarrow> path \<Rightarrow> int \<Rightarrow> item list \<Rightarrow> state \<times> nat \<times> nat \<Rightarrow> state \<times> nat \<times> nat" where
  "download_dir_recursive s rp lp (RFile f) w = (emit (EvProcessDirError rp) (cmd (CWD rp) w), 0)"
| "download_dir_recursive s rp lp (RDir d cs) w =
     (if \<not> cwd_ok d then (emit (EvProcessDirError rp) (cmd (CWD rp) w), 0)
      else
        (case list_directory d cs
                (if \<not> os_path_exists (fs w) lp
                 then (cmd (CWD rp) w)\<lparr>fs := os_makedirs (fs w) lp\<rparr>
                 else cmd (CWD rp) w) of
           (items, w3) \<Rightarrow>
             (case skip_log_limit s of
                None \<Rightarrow> (emit (EvProcessDirError rp) w3, 0)
              | Some limit \<Rightarrow>
                  (case process_items s rp lp limit items (w3, 0, 0) of
                     (w4, count, skip_logs_shown) \<Rightarrow> (w4, count)))))"
| "process_items s rp lp limit [] acc = acc"
| "process_items s rp lp limit ((name, fa, node) # rest) (w, count, skip_logs_shown) =
     (if name = ''.'' \<or> name = ''..'' then process_items s rp lp limit rest (w, count, skip_logs_shown)
      else
        (case ftype fa of
           TDir \<Rightarrow>
             (case download_dir_recursive s (remote_item_path rp name) (os_path_join lp name) node w of
                (w', c) \<Rightarrow> process_items s rp lp limit rest (w', count + c, skip_logs_shown))
         | TFile \<Rightarrow>
             process_items s rp lp limit rest
               (process_file s limit (remote_item_path rp name) (os_path_join lp name) fa (as_file node)
                  (w, count, skip_logs_shown))
         | TOther \<Rightarrow> process_items s rp lp limit rest (w, count, skip_logs_shown)))"
  by pat_completeness auto

subsection \<open>Connections and the cycle (lines 53 to 157 and 460 to 532)\<close>

text \<open>
  What the environment decides in one cycle: whether \<^verbatim>\<open>pwd\<close> on the kept connection
  succeeds, whether the connect and login of each attempt succeeds, the remote tree under
  the remote root, and the value of \<^verbatim>\<open>time.time()\<close> at the end of the cycle.
\<close>

record cycle_env =
  pwd_alive :: bool
  connect_ok :: "nat \<Rightarrow> bool"
  remote_root :: rnode
  current_time :: int

definition max_connection_failures :: int where
  "max_connection_failures = 3"

definition cleanup_interval :: int where
  "cleanup_interval = 3600"

definition max_retries :: nat where
  "max_retries = 3"

definition cleanup_connections :: "state \<Rightarrow> state" where
  "cleanup_connections w =
     (case ftp_connection w of
        None \<Rightarrow> w
      | Some c \<Rightarrow> (cmd QUIT w)\<lparr>ftp_connection := None\<rparr>)"

definition reset_connections :: "state \<Rightarrow> state" where
  "reset_connections w =
     (cleanup_connections (emit (EvReset (connection_failures w)) w))\<lparr>connection_failures := 0\<rparr>"

text \<open>
  The loop of \<^verbatim>\<open>_get_or_create_ftp_connection\<close> over the attempts. The object it returns
  is the attribute \<^verbatim>\<open>_ftp_connection\<close> of the state it leaves (\<open>None\<close> after the last
  failed attempt). A new connection has the socket timeout 30 of \<^verbatim>\<open>ftp.connect\<close>.
\<close>

fun connection_attempts :: "cycle_env \<Rightarrow> nat list \<Rightarrow> state \<Rightarrow> state" where
  "connection_attempts env [] w = w"
| "connection_attempts env (attempt # rest) w =
     (if ftp_connection w \<noteq> None \<and> pwd_alive env then cmd PWD w
      else
        (let w1 = (if ftp_connection w \<noteq> None then cleanup_connections (cmd PWD w) else w);
             w2 = cmd CONNECT (emit (EvConnecting attempt) w1)
         in if connect_ok env attempt then emit EvConnected (w2\<lparr>ftp_connection := Some 30\<rparr>)
            else connection_attempts env rest (emit (EvConnectFailed attempt) w2)))"

definition get_or_create_ftp_connection :: "cycle_env \<Rightarrow> state \<Rightarrow> state" where
  "get_or_create_ftp_connection env w = connection_attempts env [0..<max_retries] w"

text \<open>
  \<^verbatim>\<open>perform_ftp_download\<close>. The traversal catches every exception itself, so the two
  handlers can be entered only from the statements around it: a missing path key.
\<close>

definition perform_ftp_download :: "settings \<Rightarrow> cycle_env \<Rightarrow> state \<Rightarrow> state \<times> nat" where
  "perform_ftp_download s env w =
     (let w1 = get_or_create_ftp_connection env w in
      if ftp_connection w1 = None then (w1, 0)
      else
        (case remote_path s of
           None \<Rightarrow> (reset_connections (emit EvFtpError w1), 0)
         | Some rp \<Rightarrow>
             (case local_path s of
                None \<Rightarrow> (reset_connections (emit EvFtpError w1), 0)
              | Some lp \<Rightarrow> download_dir_recursive s rp lp (remote_root env) w1)))"

definition perform_periodic_cleanup :: "int \<Rightarrow> state \<Rightarrow> state" where
  "perform_periodic_cleanup t w =
     (if t - last_cleanup_time w \<ge> cleanup_interval
      then (cleanup_connections (emit EvPeriodicCleanup w))\<lparr>last_cleanup_time := t\<rparr>
      else w)"

text \<open>The handler of line 81, without its wait of 60 seconds.\<close>

definition loop_error :: "state \<Rightarrow> state" where
  "loop_error w =
     (let w1 = emit (EvLoopError (cycle_count w)) (w\<lparr>connection_failures := connection_failures w + 1\<rparr>)
      in if connection_failures w1 \<ge> max_connection_failures then reset_connections w1 else w1)"

text \<open>
  The statements of the \<^verbatim>\<open>try\<close> block of \<^verbatim>\<open>run\<close> between reading the interval and the wait
  (lines 60 to 78), from the state with the cycle count already incremented.
\<close>

definition cycle_body :: "settings \<Rightarrow> cycle_env \<Rightarrow> state \<Rightarrow> state" where
  "cycle_body s env w1 =
     (case perform_ftp_download s env (emit (EvCycleStart (cycle_count w1)) w1) of
        (w2, count) \<Rightarrow>
          perform_periodic_cleanup (current_time env)
            (emit (EvCycleEnd (cycle_count w2))
               (if count > 0
                then w2\<lparr>last_download_time := current_time env,
                        notified_no_download := False,
                        connection_failures := 0\<rparr>
                else w2)))"

text \<open>
  \<^verbatim>\<open>threading.TIMEOUT_MAX\<close> in whole seconds, on a POSIX build of CPython:
  \<^verbatim>\<open>stop_event.wait(interval_seconds)\<close> raises \<^verbatim>\<open>OverflowError\<close> for a larger timeout, unless
  the event is set already, when it returns without waiting.
\<close>

definition timeout_max :: int where
  "timeout_max = 9223372036"

text \<open>
  The message of line 59 formats \<^verbatim>\<open>interval_seconds\<close> in decimal, which raises \<^verbatim>\<open>ValueError\<close>
  for an integer of more digits than \<^verbatim>\<open>sys.get_int_max_str_digits()\<close>, 4300 by default
  (CPython 3.11).
\<close>

definition max_str_digits :: nat where
  "max_str_digits = 4300"

definition formats :: "int \<Rightarrow> bool" where
  "formats n \<longleftrightarrow> \<bar>n\<bar> < 10 ^ max_str_digits"

text \<open>
  One pass of the \<^verbatim>\<open>while\<close> loop of \<^verbatim>\<open>run\<close>, without the time that the waits take and
  without the notification check of the \<^verbatim>\<open>finally\<close> clause. The handler of line 81 is
  entered when \<^verbatim>\<open>int(self.settings.get("interval", 60))\<close> of line 58 raises, when the
  message of line 59 does, and when \<^verbatim>\<open>self.stop_event.wait(interval_seconds)\<close> of line 80
  does.
\<close>

definition run_cycle :: "settings \<Rightarrow> cycle_env \<Rightarrow> state \<Rightarrow> state" where
  "run_cycle s env w =
     (let w1 = w\<lparr>cycle_count := cycle_count w + 1\<rparr> in
      case interval s of
        None \<Rightarrow> loop_error w1
      | Some interval_seconds \<Rightarrow>
          if \<not> formats interval_seconds then loop_error w1
          else
            (let w3 = cycle_body s env w1
             in if \<not> stop_event w3 \<and> interval_seconds > timeout_max then loop_error w3 else w3))"

subsection \<open>Notions used by the properties\<close>

text \<open>
  Among the first \<open>m\<close> entries of a sequence of size reads, two neighbours that both
  succeeded and are equal.
\<close>

definition two_consecutive_equal :: "(nat \<Rightarrow> int option) \<Rightarrow> nat \<Rightarrow> bool" where
  "two_consecutive_equal seq m = (\<exists>j\<in>{0..<m - 1}. seq j \<noteq> None \<and> seq (Suc j) = seq j)"

text \<open>
  The reads that the gate compares: a first one, then the answers of \<^verbatim>\<open>ftp.size\<close> from
  query \<open>q\<close> on.
\<close>

definition gate_reads :: "int option \<Rightarrow> (nat \<Rightarrow> int option) \<Rightarrow> nat \<Rightarrow> nat \<Rightarrow> int option" where
  "gate_reads first reads q j = (case j of 0 \<Rightarrow> first | Suc j' \<Rightarrow> reads (q + j'))"

text \<open>
  The stability gate is on: the condition of line 258. And a transfer is cut short: a stop
  is requested before the callback has written the last block, either already when the
  transfer starts or by the controlling thread while it runs.
\<close>

definition gate_enabled :: "settings \<Rightarrow> bool" where
  "gate_enabled s =
     (case stability_settings s of (enable_stability, wait_seconds) \<Rightarrow>
        enable_stability \<and> wait_seconds > 0)"

definition cut_short :: "state \<Rightarrow> rfile \<Rightarrow> bool" where
  "cut_short w f \<longleftrightarrow>
     chunks f \<noteq> [] \<and>
     (stop_event w \<or> (case stop_at f of None \<Rightarrow> False | Some k \<Rightarrow> k < length (chunks f)))"

text \<open>Kinds of log entries.\<close>

fun is_retr :: "ftp_cmd \<Rightarrow> bool" where
  "is_retr (RETR p) = True"
| "is_retr c = False"

fun is_mlsd :: "ftp_cmd \<Rightarrow> bool" where
  "is_mlsd MLSD = True"
| "is_mlsd c = False"

fun is_skipping :: "event \<Rightarrow> bool" where
  "is_skipping (EvSkipping p) = True"
| "is_skipping e = False"

text \<open>
  What a traversal keeps of the state it starts from: the failure counter, the cycle
  count, whether there is a connection, and, once extended listing is known to be
  unsupported, that knowledge and the MLSD commands sent.
\<close>

definition kept :: "state \<Rightarrow> state \<Rightarrow> bool" where
  "kept w w' \<longleftrightarrow>
     connection_failures w' = connection_failures w \<and>
     cycle_count w' = cycle_count w \<and>
     (ftp_connection w' = None \<longleftrightarrow> ftp_connection w = None) \<and>
     (mlsd_supported w = Some False \<longrightarrow>
        mlsd_supported w' = Some False \<and>
        filter is_mlsd (ftp_cmds w') = filter is_mlsd (ftp_cmds w))"

text \<open>
  Names as a server lists them in one directory: path components (not empty, without a
  slash), pairwise different, and none of them another one followed by \<^verbatim>\<open>.part\<close>.
\<close>

definition plain_name :: "string \<Rightarrow> bool" where
  "plain_name n \<longleftrightarrow> n \<noteq> [] \<and> CHR ''/'' \<notin> set n"

definition separate_names :: "string list \<Rightarrow> bool" where
  "separate_names ns \<longleftrightarrow>
     distinct ns \<and> (\<forall>a\<in>set ns. plain_name a \<and> (\<forall>b\<in>set ns. a \<noteq> b @ ''.part''))"

text \<open>
  The local paths that handling the entry at \<open>lip\<close> can touch: the path, its temporary
  path, and the paths below it.
\<close>

definition under :: "path \<Rightarrow> path set" where
  "under lip = {lip, lip @ ''.part''} \<union> {q. \<exists>r. q = lip @ ''/'' @ r}"

fun kind :: "rnode \<Rightarrow> ftype" where
  "kind (RFile f) = TFile"
| "kind (RDir d cs) = TDir"

definition entry_of :: "item \<Rightarrow> string \<times> rnode" where
  "entry_of i = (fst i, snd (snd i))"

definition not_dots :: "string \<times> rnode \<Rightarrow> bool" where
  "not_dots e \<longleftrightarrow> fst e \<noteq> ''.'' \<and> fst e \<noteq> ''..''"

text \<open>
  The local paths that a call of \<^verbatim>\<open>download_dir_recursive\<close> for a node can touch.
\<close>

fun dir_area :: "path \<Rightarrow> rnode \<Rightarrow> path set" where
  "dir_area lp (RFile f) = {}"
| "dir_area lp (RDir d cs) = {lp} \<union> (\<Union>e\<in>set cs. under (os_path_join lp (fst e)))"

text \<open>
  A remote file reports its size truthfully: the size queries with index 0, 1 and 2 (the
  code sends no other for such a file) give the length of the data that the retrieve
  delivers, and so does the size fact of the listing, if there is one that can be read.
\<close>

definition truthful :: "rfile \<Rightarrow> bool" where
  "truthful f \<longleftrightarrow>
     (\<forall>k\<in>{0..<3}. size_reply f k = Some (int (length (concat (chunks f))))) \<and>
     (size_fact f = NoFact \<or> size_fact f = BadFact \<or>
      size_fact f = Fact (int (length (concat (chunks f)))))"

text \<open>The number of files of a tree that do not.\<close>

fun untruthful_files :: "rnode \<Rightarrow> nat" where
  "untruthful_files (RFile f) = (if truthful f then 0 else 1)"
| "untruthful_files (RDir d cs) = sum_list (map (\<lambda>e. untruthful_files (snd e)) cs)"

text \<open>A remote tree in which the names of every directory are separate.\<close>

fun named_tree :: "rnode \<Rightarrow> bool" where
  "named_tree (RFile f) = True"
| "named_tree (RDir d cs) =
     (separate_names (map fst cs) \<and> (\<forall>e\<in>set cs. named_tree (snd e)))"

text \<open>
  A file needs no download, in a state: its size is not reported truthfully (nothing is
  said about such a file), or no transfer of it can complete (the retrieve raises, the
  per-file timeout cannot be read, or a stop is requested and there is a block to
  deliver), or a directory is in the way of the destination or of the temporary file, or
  the destination holds a file of the remote length.
\<close>

definition file_settled :: "settings \<Rightarrow> state \<Rightarrow> path \<Rightarrow> rfile \<Rightarrow> bool" where
  "file_settled s w lip rf \<longleftrightarrow>
     \<not> truthful rf \<or> retr_raises rf \<or> per_file_timeout s = None \<or>
     (stop_event w \<and> chunks rf \<noteq> []) \<or>
     fs w lip = Some LDir \<or> fs w (lip @ ''.part'') = Some LDir \<or>
     (\<exists>c. fs w lip = Some (LFile c) \<and> length c = length (concat (chunks rf)))"

text \<open>
  A directory yields no items, in a state and in every later one: it cannot be entered, or
  NLST fails and MLSD is either known to be unsupported or does not give the entries.
\<close>

definition never_listed :: "state \<Rightarrow> rdir \<Rightarrow> bool" where
  "never_listed w d \<longleftrightarrow>
     \<not> cwd_ok d \<or>
     (\<not> nlst_ok d \<and> (mlsd_supported w = Some False \<or> mlsd_reply d \<noteq> MlsdEntries))"

text \<open>A tree is settled when every directory is never listed or has all its entries settled.\<close>

fun settled :: "settings \<Rightarrow> state \<Rightarrow> path \<Rightarrow> rnode \<Rightarrow> bool" where
  "settled s w lip (RFile rf) = file_settled s w lip rf"
| "settled s w lip (RDir d cs) =
     (never_listed w d \<or>
      (\<forall>e\<in>set cs. fst e \<noteq> ''.'' \<and> fst e \<noteq> ''..'' \<longrightarrow>
         settled s w (os_path_join lip (fst e)) (snd e)))"

text \<open>
  A later state: a requested stop stays requested, and extended listing, once known to be
  unsupported, stays so.
\<close>

definition grows :: "state \<Rightarrow> state \<Rightarrow> bool" where
  "grows w w' \<longleftrightarrow>
     (stop_event w \<longrightarrow> stop_event w') \<and>
     (mlsd_supported w = Some False \<longrightarrow> mlsd_supported w' = Some False)"

text \<open>
  Items as the listing of a directory gives them: the names are separate, the type is that
  of the node (or, by the probe of NLST, a file where \<^verbatim>\<open>cwd\<close> fails), and a size fact, if
  there is one, is that of the file.
\<close>

definition good_items :: "item list \<Rightarrow> bool" where
  "good_items items \<longleftrightarrow>
     separate_names (map fst items) \<and>
     (\<forall>i\<in>set items.
        named_tree (snd (snd i)) \<and>
        (ftype (fst (snd i)) = kind (snd (snd i)) \<or>
         (ftype (fst (snd i)) = TFile \<and> \<not> cwd_succeeds (snd (snd i)))) \<and>
        (fsize (fst (snd i)) = NoFact \<or> fsize (fst (snd i)) = size_fact (as_file (snd (snd i)))))"

text \<open>
  What handling a list of items does, from state \<open>w\<close> and count \<open>c\<close> to state \<open>w'\<close> and
  count \<open>c'\<close>: the state is a later one, local paths outside the items are untouched, all
  items are settled afterwards, and if they were settled before, the count rises by no
  more than the number of their files with a size that is not reported truthfully.
\<close>

definition pass :: "settings \<Rightarrow> path \<Rightarrow> item list \<Rightarrow> state \<Rightarrow> nat \<Rightarrow> state \<Rightarrow> nat \<Rightarrow> bool" where
  "pass s lp items w c w' c' \<longleftrightarrow>
     grows w w' \<and>
     (\<forall>q. (\<forall>i\<in>set items. q \<notin> under (os_path_join lp (fst i))) \<longrightarrow> fs w' q = fs w q) \<and>
     (\<forall>i\<in>set items. not_dots (entry_of i) \<longrightarrow>
        settled s w' (os_path_join lp (fst i)) (snd (snd i))) \<and>
     ((\<forall>i\<in>set items. not_dots (entry_of i) \<longrightarrow>
         settled s w (os_path_join lp (fst i)) (snd (snd i))) \<longrightarrow>
      c' \<le> c + sum_list (map (\<lambda>i. untruthful_files (snd (snd i))) items))"

text \<open>The same for a call of \<^verbatim>\<open>download_dir_recursive\<close> that returns \<open>w'\<close> and \<open>c\<close>.\<close>

definition dir_pass :: "settings \<Rightarrow> path \<Rightarrow> rnode \<Rightarrow> state \<Rightarrow> state \<Rightarrow> nat \<Rightarrow> bool" where
  "dir_pass s lp node w w' c \<longleftrightarrow>
     grows w w' \<and>
     (\<forall>q. q \<notin> dir_area lp node \<longrightarrow> fs w' q = fs w q) \<and>
     (kind node = TDir \<and> skip_log_limit s \<noteq> None \<longrightarrow> settled s w' lp node) \<and>
     (settled s w lp node \<longrightarrow> c \<le> untruthful_files node)"

text \<open>
  The destinations of a tree mirrored at a local path: the local path of every remote
  file, with the file.
\<close>

fun destinations :: "path \<Rightarrow> rnode \<Rightarrow> (path \<times> rfile) set" where
  "destinations lip (RFile f) = {(lip, f)}"
| "destinations lip (RDir d cs) =
     (\<Union>e\<in>set cs. destinations (os_path_join lip (fst e)) (snd e))"

text \<open>
  From state \<open>w\<close> to state \<open>w'\<close>, every destination of a tree is as it was or holds the whole
  content of its file, whose retrieve did not raise and was not cut short.
\<close>

definition whole :: "state \<Rightarrow> state \<Rightarrow> path \<Rightarrow> rnode \<Rightarrow> bool" where
  "whole w w' lip node \<longleftrightarrow>
     (\<forall>(q, f)\<in>destinations lip node.
        fs w' q = fs w q \<or>
        (fs w' q = Some (LFile (concat (chunks f))) \<and> \<not> retr_raises f \<and> \<not> cut_short w f))"

subsection \<open>Sample states, settings and servers\<close>

text \<open>
  The state that \<^verbatim>\<open>__init__\<close> leaves, at time \<open>t\<close> and over a local file system; the same
  with a connection open, and with extended listing found unsupported.
\<close>

definition init_state :: "int \<Rightarrow> local_fs \<Rightarrow> state" where
  "init_state t f =
     \<lparr>ftp_connection = None, connection_failures = 0, mlsd_supported = None, cycle_count = 0,
      stop_event = False, last_download_time = t, last_cleanup_time = t,
      notified_no_download = False, fs = f, events = [], ftp_cmds = []\<rparr>"

definition connected_state :: "local_fs \<Rightarrow> state" where
  "connected_state f = (init_state 0 f)\<lparr>ftp_connection := Some 30\<rparr>"


text \<open>
  Settings with the defaults that the source passes to \<^verbatim>\<open>settings.get\<close> and two paths; the
  same with the stability gate on for three seconds, with one skip message allowed, with
  an interval that is not a number, with an interval of ten thousand million seconds, and
  with an interval of 4301 digits.
\<close>

definition default_settings :: settings where
  "default_settings =
     \<lparr>interval = Some 60, remote_path = Some ''/data'', local_path = Some ''mirror'',
      skip_log_limit = Some 5, delete_after_download = False, EnableFileStability = False,
      FileStabilityWait = Some 0, per_file_timeout = Some 120\<rparr>"

definition stability_settings_3 :: settings where
  "stability_settings_3 = default_settings\<lparr>EnableFileStability := True, FileStabilityWait := Some 3\<rparr>"

definition one_skip_log :: settings where
  "one_skip_log = default_settings\<lparr>skip_log_limit := Some 1\<rparr>"

definition bad_interval_settings :: settings where
  "bad_interval_settings = default_settings\<lparr>interval := None\<rparr>"

definition huge_interval_settings :: settings where
  "huge_interval_settings = default_settings\<lparr>interval := Some 10000000000\<rparr>"

definition unformattable_settings :: settings where
  "unformattable_settings = default_settings\<lparr>interval := Some (10 ^ max_str_digits)\<rparr>"

text \<open>
  A remote file of constant size that is delivered in the given blocks; one that grows by
  a byte between any two size queries; one whose transfer is cancelled before the second
  block; one whose transfer raises after the last block; one whose size cannot be queried.
\<close>

definition plain_file :: "string list \<Rightarrow> rfile" where
  "plain_file cs =
     \<lparr>size_reply = (\<lambda>_. Some (int (length (concat cs)))), size_fact = NoFact, chunks = cs,
      retr_raises = False, stop_at = None, dele_ok = True\<rparr>"

definition growing_file :: rfile where
  "growing_file = (plain_file [''ab'', ''c''])\<lparr>size_reply := (\<lambda>k. Some (int k))\<rparr>"

definition cancelled_file :: rfile where
  "cancelled_file = (plain_file [''ab'', ''c''])\<lparr>stop_at := Some 1\<rparr>"

definition interrupted_file :: rfile where
  "interrupted_file = (plain_file [''ab'', ''c''])\<lparr>retr_raises := True\<rparr>"

definition unknown_size_file :: rfile where
  "unknown_size_file = (plain_file [''ab'', ''c''])\<lparr>size_reply := (\<lambda>_. None)\<rparr>"

text \<open>
  The facts of an item found by NLST and typed as a file, and the facts of a file that MLSD
  lists with the size 3.
\<close>

definition nlst_facts :: facts where
  "nlst_facts = \<lparr>ftype = TFile, fsize = NoFact\<rparr>"

definition mlsd_facts_3 :: facts where
  "mlsd_facts_3 = \<lparr>ftype = TFile, fsize = Fact 3\<rparr>"

text \<open>
  A directory whose MLSD succeeds with an empty sequence although NLST names its entries, a
  directory that lists its entries by MLSD, and one where MLSD raises.
\<close>

definition empty_mlsd_dir :: rdir where
  "empty_mlsd_dir = \<lparr>cwd_ok = True, mlsd_reply = MlsdEmpty, nlst_ok = True\<rparr>"

definition mlsd_dir :: rdir where
  "mlsd_dir = \<lparr>cwd_ok = True, mlsd_reply = MlsdEntries, nlst_ok = True\<rparr>"


text \<open>
  A remote root with the file \<^verbatim>\<open>a\<close> and the directory \<^verbatim>\<open>sub\<close> holding the file \<^verbatim>\<open>b\<close>, and
  a remote root that lists the file \<^verbatim>\<open>a.part\<close> before the file \<^verbatim>\<open>a\<close>.
\<close>

definition two_dir_tree :: rnode where
  "two_dir_tree =
     RDir mlsd_dir
       [(''a'', RFile (plain_file [''ab'', ''c''])),
        (''sub'', RDir mlsd_dir [(''b'', RFile (plain_file [''de'']))])]"

definition part_tree :: rnode where
  "part_tree =
     RDir mlsd_dir [(''a.part'', RFile (plain_file [''x''])), (''a'', RFile (plain_file [''yz'']))]"

text \<open>
  A server that accepts connections and holds one file under its root, and a server that
  cannot be reached.
\<close>

definition reachable_env :: cycle_env where
  "reachable_env =
     \<lparr>pwd_alive = True, connect_ok = (\<lambda>_. True),
      remote_root = RDir mlsd_dir [(''a'', RFile (plain_file [''ab'', ''c'']))],
      current_time = 100\<rparr>"

definition unreachable_env :: cycle_env where
  "unreachable_env = reachable_env\<lparr>pwd_alive := False, connect_ok := (\<lambda>_. False)\<rparr>"

text \<open>
  A directory that can be entered but not listed (MLSD and NLST raise), and a server whose
  root is such a directory.
\<close>

definition unlistable_dir :: rdir where
  "unlistable_dir = \<lparr>cwd_ok = True, mlsd_reply = MlsdRaises, nlst_ok = False\<rparr>"

definition unlistable_env :: cycle_env where
  "unlistable_env = reachable_env\<lparr>remote_root := RDir unlistable_dir []\<rparr>"

text \<open>
  A local file system that holds an earlier version of \<^verbatim>\<open>a\<close>, and one that mirrors both
  files of the first tree.
\<close>

definition old_local :: local_fs where
  "old_local = [''mirror/a'' \<mapsto> LFile ''previous'']"

definition mirrored :: local_fs where
  "mirrored =
     [''mirror'' \<mapsto> LDir, ''mirror/a'' \<mapsto> LFile ''abc'',
      ''mirror/sub'' \<mapsto> LDir, ''mirror/sub/b'' \<mapsto> LFile ''de'']"

text \<open>
  A file whose size queries answer 5 although the retrieve delivers two bytes, alone in a
  remote root.
\<close>

definition misreporting_file :: rfile where
  "misreporting_file = (plain_file [''ab''])\<lparr>size_reply := (\<lambda>_. Some 5)\<rparr>"

definition misreporting_tree :: rnode where
  "misreporting_tree = RDir mlsd_dir [(''m'', RFile misreporting_file)]"

text \<open>
  A remote root that lists the file \<^verbatim>\<open>a.part\<close> before a file \<^verbatim>\<open>a\<close> whose transfer is
  cancelled, a local file system that mirrors \<^verbatim>\<open>a.part\<close>, and a remote root with one file
  whose transfer raises.
\<close>

definition cancelled_part_tree :: rnode where
  "cancelled_part_tree =
     RDir mlsd_dir [(''a.part'', RFile (plain_file [''xxxx''])), (''a'', RFile cancelled_file)]"

definition part_local :: local_fs where
  "part_local = [''mirror'' \<mapsto> LDir, ''mirror/a.part'' \<mapsto> LFile ''xxxx'']"

definition interrupted_tree :: rnode where
  "interrupted_tree = RDir mlsd_dir [(''a'', RFile interrupted_file)]"

section \<open>Properties\<close>

subsection \<open>Termination of the traversal\<close>

lemma items_size_simps [simp]:
  "items_size [] = 0"
  "items_size ((name, fa, node) # rest) = Suc (node_size node + items_size rest)"
  by (simp_all add: items_size_def)

lemma items_size_mlsd:
  "items_size (map mlsd_item cs) = sum_list (map (\<lambda>e. Suc (node_size (snd e))) cs)"
proof (induction cs)
  case Nil
  then show ?case by simp
next
  case (Cons e cs)
  obtain name node where e: "e = (name, node)" by (cases e)
  show ?case using Cons by (cases node) (simp_all add: e)
qed

lemma items_size_nlst_probe:
  "items_size (fst (nlst_probe cs w)) \<le> sum_list (map (\<lambda>e. Suc (node_size (snd e))) cs)"
proof (induction cs arbitrary: w)
  case Nil
  then show ?case by simp
next
  case (Cons e cs)
  obtain name node where e: "e = (name, node)" by (cases e)
  have a: "items_size (fst (nlst_probe cs w')) \<le> sum_list (map (\<lambda>e. Suc (node_size (snd e))) cs)" for w'
    using Cons by simp
  show ?case
    using a [of w] a [of "cmd (CWD ''..'') (cmd (CWD name) w)"] a [of "cmd (CWD name) w"]
    by (simp add: e split: prod.splits) (metis fst_conv)
qed

lemma items_size_list_directory:
  "items_size (fst (list_directory d cs w)) < node_size (RDir d cs)"
proof -
  have "items_size (fst (try_mlsd d cs w)) \<le> sum_list (map (\<lambda>e. Suc (node_size (snd e))) cs)"
    by (simp add: try_mlsd_def items_size_mlsd split: mlsd_reply.splits)
  moreover have "items_size (fst (nlst_probe cs w')) \<le> sum_list (map (\<lambda>e. Suc (node_size (snd e))) cs)" for w'
    by (rule items_size_nlst_probe)
  ultimately show ?thesis
    by (auto simp: list_directory_def split: prod.splits)
       (metis le_imp_less_Suc)+
qed

termination download_dir_recursive
proof (relation "measure (\<lambda>x. case x of Inl (s, rp, lp, node, w) \<Rightarrow> node_size node
                                     | Inr (s, rp, lp, limit, items, acc) \<Rightarrow> items_size items)",
       goal_cases)
  case 1
  then show ?case by simp
next
  case (2 s rp lp d cs w items w3 limit)
  then show ?case
    using items_size_list_directory [of d cs "if \<not> os_path_exists (fs w) lp
                 then (cmd (CWD rp) w)\<lparr>fs := os_makedirs (fs w) lp\<rparr>
                 else cmd (CWD rp) w"]
    by (simp del: node_size.simps) (metis fst_conv)
qed simp_all

subsection \<open>The socket timeout\<close>

lemma download_file_connection:
  assumes "open_wb (fs w) (lip @ ''.part'') \<noteq> None" and "per_file_timeout s = Some t"
  shows "ftp_connection (snd (download_file s rip lip f w)) =
         settimeout (socket_timeout t) (ftp_connection w)"
  using assms
  by (auto simp: download_file_def Let_def cmd_def emit_def delete_remote_def
           split: prod.splits option.splits)

lemma half_of_odd:
  assumes "odd t"
  shows "real_of_int (t div 2) = real_of_int t / 2 - 1 / 2"
proof -
  obtain k where k: "t = 2 * k + 1" using assms by (auto elim: oddE)
  show ?thesis by (simp add: k add_divide_distrib)
qed

lemma half_of_even:
  assumes "even t"
  shows "real_of_int (t div 2) = real_of_int t / 2"
proof -
  obtain k where k: "t = 2 * k" using assms by (auto elim: evenE)
  show ?thesis by (simp add: k)
qed

text \<open>
  C8, as the claim states it, fails for an odd timeout above 20: for 21 seconds the socket
  timeout is 10 seconds, below 21/2.
\<close>

theorem socket_timeout_odd_counterexample:
  "real_of_int (socket_timeout 21) < max 10 (21 / 2)"
  by (simp add: socket_timeout_def)

text \<open>
  C8, amended: a download that has opened its temporary file and read the per-file timeout
  \<open>t\<close> calls \<^verbatim>\<open>settimeout\<close> with \<open>max 10 (t div 2)\<close>, the division rounding down. That value
  is at least 10; it is \<open>max 10 (t / 2)\<close> when \<open>t\<close> is even or at most 20, and exactly half
  a second below \<open>max 10 (t / 2)\<close>, which is \<open>t / 2\<close> then, when \<open>t\<close> is odd and above 20. The
  socket of the connection gets that timeout when \<^verbatim>\<open>settimeout\<close> accepts the value; when it
  raises, for a value above \<open>settimeout_max\<close>, the socket keeps the timeout it had.
\<close>

theorem socket_timeout_applied:
  assumes "open_wb (fs w) (lip @ ''.part'') \<noteq> None" and "per_file_timeout s = Some t"
    and "ftp_connection w = Some c"
  shows "ftp_connection (snd (download_file s rip lip f w)) =
           Some (if socket_timeout t \<le> settimeout_max then socket_timeout t else c)
         \<and> socket_timeout t = max 10 (t div 2)
         \<and> 10 \<le> socket_timeout t
         \<and> (if odd t \<and> 20 < t
            then real_of_int (socket_timeout t) = max 10 (real_of_int t / 2) - 1 / 2
               \<and> max 10 (real_of_int t / 2) = real_of_int t / 2
            else real_of_int (socket_timeout t) = max 10 (real_of_int t / 2))"
proof -
  have 1: "ftp_connection (snd (download_file s rip lip f w)) =
           Some (if socket_timeout t \<le> settimeout_max then socket_timeout t else c)"
    using download_file_connection [OF assms(1,2)] assms(3) by (simp add: settimeout_def)
  have 2: "socket_timeout t = max 10 (t div 2)" "10 \<le> socket_timeout t"
    by (simp_all add: socket_timeout_def)
  have 3: "real_of_int (socket_timeout t) = max 10 (real_of_int t / 2) - 1 / 2
           \<and> max 10 (real_of_int t / 2) = real_of_int t / 2"
    if "odd t" and "20 < t"
  proof -
    have "10 \<le> t div 2" using that(2) by linarith
    then have "real_of_int (socket_timeout t) = real_of_int t / 2 - 1 / 2"
      using half_of_odd [OF that(1)] by (simp add: socket_timeout_def max_def)
    moreover have "max 10 (real_of_int t / 2) = real_of_int t / 2"
      using that(2) by (simp add: max_def)
    ultimately show ?thesis by simp
  qed
  have 4: "real_of_int (socket_timeout t) = max 10 (real_of_int t / 2)" if "even t"
  proof (cases "10 \<le> t div 2")
    case True
    then have "20 \<le> t" by linarith
    then show ?thesis
      using True half_of_even [OF that] by (simp add: socket_timeout_def max_def)
  next
    case False
    then have "t < 20" by linarith
    then show ?thesis using False by (simp add: socket_timeout_def max_def)
  qed
  have 5: "real_of_int (socket_timeout t) = max 10 (real_of_int t / 2)" if "t \<le> 20"
  proof -
    have "t div 2 \<le> 10" using that by linarith
    then show ?thesis using that by (simp add: socket_timeout_def max_def)
  qed
  have 6: "if odd t \<and> 20 < t
            then real_of_int (socket_timeout t) = max 10 (real_of_int t / 2) - 1 / 2
               \<and> max 10 (real_of_int t / 2) = real_of_int t / 2
            else real_of_int (socket_timeout t) = max 10 (real_of_int t / 2)"
  proof (cases "odd t \<and> 20 < t")
    case True
    then show ?thesis using 3 by simp
  next
    case False
    then have "even t \<or> t \<le> 20" by auto
    then show ?thesis using False 4 5 by auto
  qed
  show ?thesis using 1 2 6 by blast
qed

theorem socket_timeout_applied_witness:
  "ftp_connection (snd (download_file default_settings ''/data/a'' ''mirror/a''
      (plain_file [''ab'', ''c'']) (connected_state Map.empty))) = Some 60
   \<and> ftp_connection (snd (download_file (default_settings\<lparr>per_file_timeout := Some 21\<rparr>)
      ''/data/a'' ''mirror/a'' (plain_file [''ab'', ''c'']) (connected_state Map.empty))) = Some 10
   \<and> ftp_connection (snd (download_file
      (default_settings\<lparr>per_file_timeout := Some 20000000000\<rparr>)
      ''/data/a'' ''mirror/a'' (plain_file [''ab'', ''c'']) (connected_state Map.empty))) = Some 30"
proof -
  have 1: "open_wb (fs (connected_state Map.empty)) (''mirror/a'' @ ''.part'') \<noteq> None"
    by (simp add: open_wb_def connected_state_def init_state_def)
  have 2: "per_file_timeout default_settings = Some 120"
    "per_file_timeout (default_settings\<lparr>per_file_timeout := Some 21\<rparr>) = Some 21"
    "per_file_timeout (default_settings\<lparr>per_file_timeout := Some 20000000000\<rparr>)
       = Some 20000000000"
    by (simp_all add: default_settings_def)
  have 3: "ftp_connection (connected_state Map.empty) = Some 30"
    by (simp add: connected_state_def init_state_def)
  have 4: "socket_timeout 120 = 60" "socket_timeout 21 = 10"
    "socket_timeout 20000000000 = 10000000000"
    by (simp_all add: socket_timeout_def)
  show ?thesis
    using socket_timeout_applied [OF 1 2(1) 3, of "''/data/a''" "plain_file [''ab'', ''c'']"]
      socket_timeout_applied [OF 1 2(2) 3, of "''/data/a''" "plain_file [''ab'', ''c'']"]
      socket_timeout_applied [OF 1 2(3) 3, of "''/data/a''" "plain_file [''ab'', ''c'']"]
    by (simp add: 4 settimeout_max_def)
qed

subsection \<open>The stability gate\<close>

lemma two_consecutive_equal_Suc:
  "two_consecutive_equal seq (Suc (Suc n)) \<longleftrightarrow>
     (seq 0 \<noteq> None \<and> seq 1 = seq 0) \<or> two_consecutive_equal (\<lambda>j. seq (Suc j)) (Suc n)"
proof -
  have "(\<exists>j<Suc n. P j) \<longleftrightarrow> P 0 \<or> (\<exists>j<n. P (Suc j))" for P
    by (metis less_Suc_eq_0_disj)
  from this [of "\<lambda>j. seq j \<noteq> None \<and> seq (Suc j) = seq j"]
  show ?thesis by (simp add: two_consecutive_equal_def Bex_def)
qed

lemma stability_loop_iff:
  "stable_count = (if prev_size = None then 0 else 1) \<Longrightarrow>
   fst (stability_loop reads q n prev_size stable_count) \<longleftrightarrow>
   two_consecutive_equal (gate_reads prev_size reads q) (Suc n)"
proof (induction n arbitrary: q prev_size stable_count)
  case 0
  then show ?case by (simp add: two_consecutive_equal_def)
next
  case (Suc n)
  have shift: "(\<lambda>j. gate_reads prev_size reads q (Suc j)) = gate_reads (reads q) reads (Suc q)"
    by (rule ext) (simp add: gate_reads_def split: nat.splits)
  have unfold: "two_consecutive_equal (gate_reads prev_size reads q) (Suc (Suc n)) \<longleftrightarrow>
      (prev_size \<noteq> None \<and> reads q = prev_size) \<or>
      two_consecutive_equal (gate_reads (reads q) reads (Suc q)) (Suc n)"
    using two_consecutive_equal_Suc [of "gate_reads prev_size reads q" n]
    by (simp add: shift) (simp add: gate_reads_def)
  show ?case
  proof (cases "next_stable_count (reads q) prev_size stable_count \<ge> 2")
    case True
    then have "prev_size \<noteq> None \<and> reads q = prev_size"
      using Suc.prems by (auto simp: next_stable_count_def split: if_splits)
    then show ?thesis using True unfold by simp
  next
    case False
    then have ne: "\<not> (prev_size \<noteq> None \<and> reads q = prev_size)"
      using Suc.prems by (auto simp: next_stable_count_def split: if_splits)
    have cnt: "next_stable_count (reads q) prev_size stable_count = (if reads q = None then 0 else 1)"
      using False Suc.prems by (auto simp: next_stable_count_def split: if_splits)
    have "fst (stability_loop reads q (Suc n) prev_size stable_count) =
          fst (stability_loop reads (Suc q) n (reads q)
                 (next_stable_count (reads q) prev_size stable_count))"
      using False by simp
    also have "\<dots> = two_consecutive_equal (gate_reads (reads q) reads (Suc q)) (Suc n)"
      by (rule Suc.IH [OF cnt])
    finally have "fst (stability_loop reads q (Suc n) prev_size stable_count) =
        two_consecutive_equal (gate_reads (reads q) reads (Suc q)) (Suc n)" .
    with ne unfold show ?thesis by blast
  qed
qed

lemma next_stable_count_failed: "next_stable_count None prev_size stable_count = 0"
  by (simp add: next_stable_count_def)

lemma stability_gate_fs: "fs (snd (stability_gate s rip fa f w)) = fs w"
  by (auto simp: stability_gate_def initial_size_def emit_def cmd_def
           split: prod.splits option.splits size_fact.splits)

lemma filter_replicate_SIZE: "filter is_retr (replicate n (SIZE p)) = []"
  by (induction n) simp_all

lemma stability_gate_retr:
  "filter is_retr (ftp_cmds (snd (stability_gate s rip fa f w))) = filter is_retr (ftp_cmds w)"
  by (auto simp: stability_gate_def initial_size_def emit_def cmd_def filter_replicate_SIZE
           split: prod.splits option.splits size_fact.splits)

lemma process_file_when_unstable:
  assumes "\<not> fst (stability_gate s rip fa f (emit (EvDownloading rip) (cmd (SIZE rip) w)))"
  shows "case process_file s limit rip lip fa f (w, count, shown) of
           (w', count', shown') \<Rightarrow>
             count' = count \<and> fs w' = fs w \<and>
             filter is_retr (ftp_cmds w') = filter is_retr (ftp_cmds w)"
proof (cases "already_downloaded (fs w) lip (size_reply f 0)")
  case True
  then show ?thesis
    by (simp add: process_file_def Let_def cmd_def emit_def delete_remote_def)
next
  case False
  let ?w0 = "emit (EvDownloading rip) (cmd (SIZE rip) w)"
  have "fs (snd (stability_gate s rip fa f ?w0)) = fs w"
    by (simp add: stability_gate_fs) (simp add: emit_def cmd_def)
  moreover have "filter is_retr (ftp_cmds (snd (stability_gate s rip fa f ?w0))) = filter is_retr (ftp_cmds w)"
    by (simp add: stability_gate_retr) (simp add: emit_def cmd_def)
  ultimately show ?thesis using False assms
    by (auto simp: process_file_def Let_def cmd_def split: prod.splits)
qed

lemma stability_gate_iff:
  assumes "stability_settings s = (True, wait_seconds)" and "0 < wait_seconds"
    and "initial_size rip fa f w = (Some i, q, w1)"
  shows "fst (stability_gate s rip fa f w) \<longleftrightarrow>
         two_consecutive_equal (gate_reads (Some i) (size_reply f) q) (Suc (nat wait_seconds))"
  using assms stability_loop_iff [of 1 "Some i" "size_reply f" q "nat wait_seconds"]
  by (auto simp: stability_gate_def split: prod.splits)

lemma stability_loop_after_failed_read:
  assumes "reads k = None"
  shows "fst (stability_loop reads k (Suc n) prev_size stable_count) \<longleftrightarrow>
         two_consecutive_equal (\<lambda>j. reads (Suc k + j)) n"
proof -
  have "fst (stability_loop reads k (Suc n) prev_size stable_count) =
        fst (stability_loop reads (Suc k) n None 0)"
    using assms by (simp add: next_stable_count_def)
  also have "\<dots> = two_consecutive_equal (gate_reads None reads (Suc k)) (Suc n)"
    by (rule stability_loop_iff) simp
  also have "\<dots> = two_consecutive_equal (\<lambda>j. reads (Suc k + j)) n"
  proof (cases n)
    case 0
    then show ?thesis by (simp add: two_consecutive_equal_def)
  next
    case (Suc m)
    have "(\<lambda>j. gate_reads None reads (Suc k) (Suc j)) = (\<lambda>j. reads (Suc k + j))"
      by (rule ext) (simp add: gate_reads_def)
    then show ?thesis
      using two_consecutive_equal_Suc [of "gate_reads None reads (Suc k)" m] Suc
      by (simp add: gate_reads_def)
  qed
  finally show ?thesis .
qed

text \<open>
  C6: a failed size read sets the counter of equal reads to zero, so that after a failed
  read the loop finds the file stable exactly when two neighbouring reads among the
  remaining ones succeed and are equal. With the gate on and an initial size known, the
  gate lets the file through exactly when the initial size and the reads of the wait
  window contain two neighbouring successful equal reads; when they do not, the file is
  passed over: the count and the local file system are unchanged and no \<^verbatim>\<open>RETR\<close> is sent.
\<close>

theorem stability_gate_two_equal_reads:
  assumes "stability_settings s = (True, wait_seconds)" and "0 < wait_seconds"
    and "initial_size rip fa f (emit (EvDownloading rip) (cmd (SIZE rip) w)) = (Some i, q, w1)"
  shows "next_stable_count None prev_size stable_count = 0
    \<and> (reads k = None \<longrightarrow>
         fst (stability_loop reads k (Suc n) prev_size stable_count) =
         two_consecutive_equal (\<lambda>j. reads (Suc k + j)) n)
    \<and> fst (stability_gate s rip fa f (emit (EvDownloading rip) (cmd (SIZE rip) w))) =
         two_consecutive_equal (gate_reads (Some i) (size_reply f) q) (Suc (nat wait_seconds))
    \<and> (\<not> two_consecutive_equal (gate_reads (Some i) (size_reply f) q) (Suc (nat wait_seconds)) \<longrightarrow>
         (case process_file s limit rip lip fa f (w, count, shown) of
            (w', count', shown') \<Rightarrow>
              count' = count \<and> fs w' = fs w \<and>
              filter is_retr (ftp_cmds w') = filter is_retr (ftp_cmds w)))"
proof -
  have gate: "fst (stability_gate s rip fa f (emit (EvDownloading rip) (cmd (SIZE rip) w))) =
      two_consecutive_equal (gate_reads (Some i) (size_reply f) q) (Suc (nat wait_seconds))"
    by (rule stability_gate_iff [OF assms])
  have after: "reads k = None \<longrightarrow>
         fst (stability_loop reads k (Suc n) prev_size stable_count) =
         two_consecutive_equal (\<lambda>j. reads (Suc k + j)) n"
    using stability_loop_after_failed_read by blast
  have skipped: "\<not> two_consecutive_equal (gate_reads (Some i) (size_reply f) q) (Suc (nat wait_seconds)) \<longrightarrow>
         (case process_file s limit rip lip fa f (w, count, shown) of
            (w', count', shown') \<Rightarrow>
              count' = count \<and> fs w' = fs w \<and>
              filter is_retr (ftp_cmds w') = filter is_retr (ftp_cmds w))"
  proof
    assume "\<not> two_consecutive_equal (gate_reads (Some i) (size_reply f) q) (Suc (nat wait_seconds))"
    then have "\<not> fst (stability_gate s rip fa f (emit (EvDownloading rip) (cmd (SIZE rip) w)))"
      using gate by simp
    then show "case process_file s limit rip lip fa f (w, count, shown) of
            (w', count', shown') \<Rightarrow>
              count' = count \<and> fs w' = fs w \<and>
              filter is_retr (ftp_cmds w') = filter is_retr (ftp_cmds w)"
      by (rule process_file_when_unstable)
  qed
  show ?thesis
    by (intro conjI next_stable_count_failed after gate skipped)
qed

theorem stability_gate_two_equal_reads_witness:
  "\<not> fst (stability_gate stability_settings_3 ''/data/a'' nlst_facts growing_file
            (emit (EvDownloading ''/data/a'') (cmd (SIZE ''/data/a'') (connected_state Map.empty))))
   \<and> (case process_file stability_settings_3 5 ''/data/a'' ''mirror/a'' nlst_facts growing_file
              (connected_state Map.empty, 0, 0) of
         (w', count', shown') \<Rightarrow>
           count' = 0 \<and> fs w' = fs (connected_state Map.empty) \<and>
           filter is_retr (ftp_cmds w') = filter is_retr (ftp_cmds (connected_state Map.empty)))"
proof -
  let ?w = "connected_state Map.empty"
  let ?w0 = "emit (EvDownloading ''/data/a'') (cmd (SIZE ''/data/a'') ?w)"
  have 1: "stability_settings stability_settings_3 = (True, 3)"
    by (simp add: stability_settings_def stability_settings_3_def default_settings_def)
  have 2: "(0::int) < 3" by simp
  have 3: "initial_size ''/data/a'' nlst_facts growing_file ?w0 = (Some 1, 2, cmd (SIZE ''/data/a'') ?w0)"
    by (simp add: initial_size_def nlst_facts_def growing_file_def plain_file_def)
  have 4: "\<not> two_consecutive_equal (gate_reads (Some 1) (size_reply growing_file) 2) (Suc (nat 3))"
    by (simp add: two_consecutive_equal_def gate_reads_def growing_file_def plain_file_def
          atLeastLessThanSuc eval_nat_numeral split: nat.splits)
  note T = stability_gate_two_equal_reads [OF 1 2 3, where limit = 5 and lip = "''mirror/a''"
      and count = 0 and shown = 0]
  have closed: "\<not> fst (stability_gate stability_settings_3 ''/data/a'' nlst_facts growing_file ?w0)"
    unfolding T [THEN conjunct2, THEN conjunct2, THEN conjunct1] by (rule 4)
  show ?thesis
    by (rule conjI [OF closed T [THEN conjunct2, THEN conjunct2, THEN conjunct2, THEN mp, OF 4]])
qed

lemma retrbinary_completed:
  "retrbinary is_set i cs written = (True, out) \<Longrightarrow> out = written @ concat cs"
proof (induction cs arbitrary: i written)
  case Nil
  then show ?case by simp
next
  case (Cons c cs)
  then have "retrbinary is_set (Suc i) cs (written @ c) = (True, out)"
    by (simp split: if_splits)
  from Cons.IH [OF this] show ?case by simp
qed

lemma retrbinary_written:
  "retrbinary is_set i cs written = (completed, out) \<Longrightarrow> \<exists>n\<le>length cs. out = written @ concat (take n cs)"
proof (induction cs arbitrary: i written)
  case Nil
  then show ?case by simp
next
  case (Cons c cs)
  show ?case
  proof (cases "is_set i")
    case True
    with Cons.prems have "out = written @ concat (take 0 (c # cs))" by simp
    then show ?thesis by blast
  next
    case False
    with Cons.prems have "retrbinary is_set (Suc i) cs (written @ c) = (completed, out)" by simp
    from Cons.IH [OF this] obtain n where "n \<le> length cs" "out = (written @ c) @ concat (take n cs)"
      by blast
    then have "Suc n \<le> length (c # cs)" "out = written @ concat (take (Suc n) (c # cs))" by simp_all
    then show ?thesis by blast
  qed
qed

subsection \<open>The temporary file and the destination\<close>

text \<open>
  C1, as the claim states it, fails: a transfer cancelled at its second block leaves the
  temporary file in place, holding the first block.
\<close>

theorem temp_file_remains_counterexample:
  "fs (snd (download_file default_settings ''/data/a'' ''mirror/a'' cancelled_file
             (connected_state Map.empty))) ''mirror/a.part'' = Some (LFile ''ab'')"
  by (simp add: download_file_def Let_def open_wb_def connected_state_def init_state_def
        default_settings_def cancelled_file_def plain_file_def stop_is_set_def cmd_def emit_def)

text \<open>
  C1, amended: when streaming to the temporary path raises, by cancellation or by an error
  of the transfer, the file is not counted as downloaded and a download error is the one
  event; the temporary file stays, holding the bytes written before the error (some first
  blocks of the data), and no other local path changes.
\<close>

theorem streaming_error_keeps_temp_file:
  assumes "open_wb (fs w) (lip @ ''.part'') = Some fs1" and "per_file_timeout s = Some t"
    and "retrbinary (stop_is_set w f) 0 (chunks f) [] = (completed, written)"
    and "\<not> completed \<or> retr_raises f"
  shows "case download_file s rip lip f w of
           (downloaded, w') \<Rightarrow>
             \<not> downloaded \<and>
             fs w' (lip @ ''.part'') = Some (LFile written) \<and>
             (\<forall>p. p \<noteq> lip @ ''.part'' \<longrightarrow> fs w' p = fs w p) \<and>
             events w' = events w @ [EvDownloadError rip] \<and>
             ftp_cmds w' = ftp_cmds w @ [RETR rip] \<and>
             (\<exists>n\<le>length (chunks f). written = concat (take n (chunks f)))"
proof -
  have "\<exists>n\<le>length (chunks f). written = concat (take n (chunks f))"
    using retrbinary_written [OF assms(3)] by simp
  then show ?thesis
    using assms
    by (auto simp: download_file_def Let_def open_wb_def cmd_def emit_def split: if_splits)
qed

theorem streaming_error_keeps_temp_file_witness:
  "\<not> fst (download_file default_settings ''/data/a'' ''mirror/a'' cancelled_file
            (connected_state Map.empty))
   \<and> fs (snd (download_file default_settings ''/data/a'' ''mirror/a'' cancelled_file
            (connected_state Map.empty))) (''mirror/a'' @ ''.part'') = Some (LFile ''ab'')"
proof -
  let ?w = "connected_state Map.empty"
  have 1: "open_wb (fs ?w) (''mirror/a'' @ ''.part'') = Some ((fs ?w)(''mirror/a'' @ ''.part'' \<mapsto> LFile []))"
    by (simp add: open_wb_def connected_state_def init_state_def)
  have 2: "per_file_timeout default_settings = Some 120"
    by (simp add: default_settings_def)
  have 3: "retrbinary (stop_is_set ?w cancelled_file) 0 (chunks cancelled_file) [] = (False, ''ab'')"
    by (simp add: stop_is_set_def cancelled_file_def plain_file_def connected_state_def init_state_def)
  have 4: "\<not> False \<or> retr_raises cancelled_file" by simp
  show ?thesis
    using streaming_error_keeps_temp_file [OF 1 2 3 4, of "''/data/a''"]
    by (cases "download_file default_settings ''/data/a'' ''mirror/a'' cancelled_file ?w") simp
qed

lemma stability_gate_stop_event: "stop_event (snd (stability_gate s rip fa f w)) = stop_event w"
  by (auto simp: stability_gate_def initial_size_def emit_def cmd_def
           split: prod.splits option.splits size_fact.splits)

lemma download_file_frame:
  "p \<noteq> lip \<Longrightarrow> p \<noteq> lip @ ''.part'' \<Longrightarrow> fs (snd (download_file s rip lip f w)) p = fs w p"
  by (auto simp: download_file_def Let_def open_wb_def os_replace_def cmd_def emit_def
        delete_remote_def split: option.splits prod.splits if_splits)

lemma download_file_destination:
  "case download_file s rip lip f w of
     (downloaded, w') \<Rightarrow>
       (\<not> downloaded \<and> fs w' lip = fs w lip) \<or>
       (downloaded \<and> fs w' lip = Some (LFile (concat (chunks f))) \<and> \<not> retr_raises f \<and>
        fst (retrbinary (stop_is_set w f) 0 (chunks f) []))"
proof -
  have "out = concat (chunks f)" if "retrbinary (stop_is_set w f) 0 (chunks f) [] = (True, out)" for out
    using retrbinary_completed [OF that] by simp
  then show ?thesis
    by (auto simp: download_file_def Let_def open_wb_def os_replace_def cmd_def emit_def
          delete_remote_def split: option.splits prod.splits if_splits)
qed

text \<open>
  Handling one file of a listing, from any state, changes no local path other than the
  destination and the temporary path (the destination with the suffix \<^verbatim>\<open>.part\<close>). The
  destination either keeps what it held, or, when the retrieve has delivered every block
  without raising, holds the concatenation of all blocks, moved there from the temporary
  path by \<^verbatim>\<open>os.replace\<close>.
\<close>

lemma process_file_destination:
  "case process_file s limit rip lip fa f (w, count, shown) of
     (w', count', shown') \<Rightarrow>
       (\<forall>p. p \<noteq> lip \<and> p \<noteq> lip @ ''.part'' \<longrightarrow> fs w' p = fs w p) \<and>
       ((count' = count \<and> fs w' lip = fs w lip) \<or>
        (count' = Suc count \<and> fs w' lip = Some (LFile (concat (chunks f))) \<and>
         \<not> retr_raises f \<and> fst (retrbinary (stop_is_set w f) 0 (chunks f) []))) \<and>
       (retr_raises f \<or> \<not> fst (retrbinary (stop_is_set w f) 0 (chunks f) []) \<longrightarrow>
          fs w' lip = fs w lip)"
proof (cases "already_downloaded (fs w) lip (size_reply f 0)")
  case True
  then show ?thesis
    by (simp add: process_file_def Let_def cmd_def emit_def delete_remote_def)
next
  case False
  let ?w0 = "emit (EvDownloading rip) (cmd (SIZE rip) w)"
  obtain ok w2 where gate: "stability_gate s rip fa f ?w0 = (ok, w2)" by (cases "stability_gate s rip fa f ?w0")
  have fs2: "fs w2 = fs w"
    using stability_gate_fs [where s = s and rip = rip and fa = fa and f = f and w = ?w0] gate by (simp add: emit_def cmd_def)
  have stop2: "stop_is_set w2 f = stop_is_set w f"
  proof
    fix i
    have "stop_event w2 = stop_event w"
      using stability_gate_stop_event [where s = s and rip = rip and fa = fa and f = f and w = ?w0] gate by (simp add: emit_def cmd_def)
    then show "stop_is_set w2 f i = stop_is_set w f i" by (simp add: stop_is_set_def)
  qed
  show ?thesis
  proof (cases ok)
    case False
    then show ?thesis using \<open>\<not> already_downloaded (fs w) lip (size_reply f 0)\<close> gate fs2
      by (simp add: process_file_def Let_def cmd_def)
  next
    case True
    obtain downloaded w3 where dl: "download_file s rip lip f w2 = (downloaded, w3)"
      by (cases "download_file s rip lip f w2")
    have frame: "\<forall>p. p \<noteq> lip \<and> p \<noteq> lip @ ''.part'' \<longrightarrow> fs w3 p = fs w p"
      using download_file_frame [where lip = lip and s = s and rip = rip and f = f and w = w2] dl fs2 by simp
    have dest: "(\<not> downloaded \<and> fs w3 lip = fs w lip) \<or>
       (downloaded \<and> fs w3 lip = Some (LFile (concat (chunks f))) \<and> \<not> retr_raises f \<and>
        fst (retrbinary (stop_is_set w f) 0 (chunks f) []))"
      using download_file_destination [where lip = lip and s = s and rip = rip and f = f and w = w2] dl fs2 stop2 by simp
    have "process_file s limit rip lip fa f (w, count, shown) =
          (w3, if downloaded then Suc count else count, shown)"
      using \<open>\<not> already_downloaded (fs w) lip (size_reply f 0)\<close> gate True dl
      by (simp add: process_file_def Let_def cmd_def)
    then show ?thesis using frame dest by auto
  qed
qed

subsection \<open>A file whose remote size is unknown\<close>

lemma stability_gate_events:
  "\<exists>es. events (snd (stability_gate s rip fa f w)) = events w @ es \<and> filter is_skipping es = []"
  by (auto simp: stability_gate_def initial_size_def emit_def cmd_def
           split: prod.splits option.splits size_fact.splits)

lemma download_file_events:
  "\<exists>es. events (snd (download_file s rip lip f w)) = events w @ es \<and> filter is_skipping es = []"
  by (auto simp: download_file_def Let_def cmd_def emit_def delete_remote_def
           split: option.splits prod.splits if_splits)

lemma download_file_succeeds:
  assumes "per_file_timeout s = Some t" and "fs w (lip @ ''.part'') \<noteq> Some LDir"
    and "fs w lip \<noteq> Some LDir" and "fst (retrbinary (stop_is_set w f) 0 (chunks f) [])"
    and "\<not> retr_raises f"
  shows "fst (download_file s rip lip f w)"
  using assms
  by (auto simp: download_file_def Let_def open_wb_def os_replace_def cmd_def emit_def
        split: option.splits prod.splits if_splits)

lemma retrbinary_iff:
  "fst (retrbinary is_set i cs written) \<longleftrightarrow> (\<forall>j<length cs. \<not> is_set (i + j))"
proof (induction cs arbitrary: i written)
  case Nil
  then show ?case by simp
next
  case (Cons c cs)
  have "(\<forall>j<Suc (length cs). \<not> is_set (i + j)) \<longleftrightarrow>
        \<not> is_set i \<and> (\<forall>j<length cs. \<not> is_set (Suc i + j))"
    by (auto simp: less_Suc_eq_0_disj)
  then show ?case using Cons.IH [of "Suc i" "written @ c"] by simp
qed

lemma transfer_completes:
  "fst (retrbinary (stop_is_set w f) 0 (chunks f) []) \<longleftrightarrow> \<not> cut_short w f"
proof -
  let ?n = "length (chunks f)"
  have split: "(\<forall>j<n. \<not> (A \<or> B j)) \<longleftrightarrow> n = 0 \<or> (\<not> A \<and> \<not> (\<exists>j<n. B j))"
    for n :: nat and A B
    by (cases n) auto
  have reach: "(\<forall>j<n. \<not> k \<le> j) \<longleftrightarrow> \<not> k < n" for k n :: nat
    by auto
  have "fst (retrbinary (stop_is_set w f) 0 (chunks f) []) \<longleftrightarrow>
        (\<forall>j<?n. \<not> (stop_event w \<or> (case stop_at f of None \<Rightarrow> False | Some k \<Rightarrow> k \<le> j)))"
    by (simp add: retrbinary_iff stop_is_set_def)
  also have "\<dots> \<longleftrightarrow> ?n = 0 \<or> (\<not> stop_event w \<and>
        \<not> (\<exists>j<?n. case stop_at f of None \<Rightarrow> False | Some k \<Rightarrow> k \<le> j))"
    by (rule split)
  also have "\<dots> \<longleftrightarrow> \<not> cut_short w f"
  proof (cases "stop_at f")
    case None
    then show ?thesis by (simp add: cut_short_def)
  next
    case (Some k)
    then show ?thesis using reach [where k = k and n = ?n] by (simp add: cut_short_def)
  qed
  finally show ?thesis .
qed

lemma stability_loop_no_reads:
  assumes "\<forall>k. reads k = None"
  shows "\<not> fst (stability_loop reads q n prev_size stable_count)"
  using assms
  by (induction n arbitrary: q prev_size stable_count) (simp_all add: next_stable_count_def)

lemma gate_passes:
  assumes "\<not> gate_enabled s \<or> fsize fa = BadFact \<or> (fsize fa = NoFact \<and> size_reply f 1 = None)"
  shows "fst (stability_gate s rip fa f w)"
  using assms
  by (auto simp: stability_gate_def gate_enabled_def initial_size_def split: prod.splits)

lemma gate_holds:
  assumes "gate_enabled s" and "fsize fa = Fact i" and "\<forall>k. size_reply f k = None"
  shows "\<not> fst (stability_gate s rip fa f w)"
    and "EvUnstable rip \<in> set (events (snd (stability_gate s rip fa f w)))"
proof -
  have nl: "\<not> fst (stability_loop (size_reply f) (Suc 0) n (Some i) (Suc 0))" for n
    by (rule stability_loop_no_reads [OF assms(3)])
  show "\<not> fst (stability_gate s rip fa f w)"
    and "EvUnstable rip \<in> set (events (snd (stability_gate s rip fa f w)))"
    using assms(1,2) nl
    by (simp_all add: stability_gate_def gate_enabled_def initial_size_def emit_def split_beta)
qed

text \<open>
  C10, as the claim states it, fails: with the stability gate on and a size in the listing,
  a file whose size queries all fail is held back as unstable. It is not downloaded, no
  \<^verbatim>\<open>RETR\<close> is sent, and the local file keeps its old content.
\<close>

theorem unknown_size_held_back_counterexample:
  "fst (snd (process_file stability_settings_3 5 ''/data/a'' ''mirror/a'' mlsd_facts_3
               unknown_size_file (connected_state old_local, 0, 0))) = 0
   \<and> fs (fst (process_file stability_settings_3 5 ''/data/a'' ''mirror/a'' mlsd_facts_3
               unknown_size_file (connected_state old_local, 0, 0))) ''mirror/a''
       = Some (LFile ''previous'')
   \<and> filter is_retr (ftp_cmds (fst (process_file stability_settings_3 5 ''/data/a'' ''mirror/a''
               mlsd_facts_3 unknown_size_file (connected_state old_local, 0, 0)))) = []
   \<and> size_reply unknown_size_file = (\<lambda>_. None)"
  by (simp add: process_file_def already_downloaded_def stability_gate_def stability_settings_def
        stability_settings_3_def default_settings_def initial_size_def mlsd_facts_3_def
        unknown_size_file_def plain_file_def next_stable_count_def eval_nat_numeral
        connected_state_def init_state_def old_local_def os_path_exists_def cmd_def emit_def Let_def)

text \<open>
  C10, amended: when the first size query for a file fails, the already-downloaded test is
  false whatever the local file system holds, so a file whose destination exists is not
  passed over: handling it emits the start of a download and no skip event. What follows
  depends on the stability gate. Where the gate is off, or the listing gave a size that
  cannot be read, or it gave none and the next size query fails too, the file is downloaded
  again whenever the transfer completes (the per-file timeout can be read, no directory is
  in the way of the temporary path, the retrieve is not cut short and does not raise): it
  is counted and the destination holds the new content in place of the old. Where the gate
  is on, the listing gave a size and every size query fails, the file is held back as
  unstable: it is not counted, no \<^verbatim>\<open>RETR\<close> is sent and the local file system is as before.
\<close>

theorem unknown_remote_size_downloads_again:
  assumes "size_reply f 0 = None" and "fs w lip = Some (LFile old)"
  shows "\<not> already_downloaded (fs w) lip (size_reply f 0)
    \<and> (case process_file s limit rip lip fa f (w, count, shown) of
         (w', count', shown') \<Rightarrow>
           shown' = shown \<and>
           EvDownloading rip \<in> set (events w') \<and>
           filter is_skipping (events w') = filter is_skipping (events w) \<and>
           ((\<not> gate_enabled s \<or> fsize fa = BadFact \<or>
             (fsize fa = NoFact \<and> size_reply f 1 = None)) \<and>
            per_file_timeout s \<noteq> None \<and> fs w (lip @ ''.part'') \<noteq> Some LDir \<and>
            \<not> cut_short w f \<and> \<not> retr_raises f \<longrightarrow>
              count' = Suc count \<and> fs w' lip = Some (LFile (concat (chunks f)))) \<and>
           (gate_enabled s \<and> (\<exists>i. fsize fa = Fact i) \<and> (\<forall>k. size_reply f k = None) \<longrightarrow>
              count' = count \<and> fs w' = fs w \<and>
              filter is_retr (ftp_cmds w') = filter is_retr (ftp_cmds w)))"
proof -
  let ?w0 = "emit (EvDownloading rip) (cmd (SIZE rip) w)"
  have no_skip: "\<not> already_downloaded (fs w) lip (size_reply f 0)"
    using assms(1) by (simp add: already_downloaded_def)
  obtain ok w2 where gate: "stability_gate s rip fa f ?w0 = (ok, w2)"
    by (cases "stability_gate s rip fa f ?w0")
  obtain es where es: "events w2 = events w @ EvDownloading rip # es" "filter is_skipping es = []"
    using stability_gate_events [where s = s and rip = rip and fa = fa and f = f and w = ?w0] gate
    by (auto simp: emit_def cmd_def)
  have fs2: "fs w2 = fs w"
    using stability_gate_fs [where s = s and rip = rip and fa = fa and f = f and w = ?w0] gate
    by (simp add: emit_def cmd_def)
  have retr2: "filter is_retr (ftp_cmds w2) = filter is_retr (ftp_cmds w)"
    using stability_gate_retr [where s = s and rip = rip and fa = fa and f = f and w = ?w0] gate
    by (simp add: emit_def cmd_def)
  have stop2: "stop_event w2 = stop_event w"
    using stability_gate_stop_event [where s = s and rip = rip and fa = fa and f = f and w = ?w0] gate
    by (simp add: emit_def cmd_def)
  have passes: ok
    if "\<not> gate_enabled s \<or> fsize fa = BadFact \<or> (fsize fa = NoFact \<and> size_reply f 1 = None)"
    using gate_passes [OF that, of rip ?w0] gate by simp
  have holds: "\<not> ok \<and> EvUnstable rip \<in> set (events w2)"
    if "gate_enabled s" "fsize fa = Fact i" "\<forall>k. size_reply f k = None" for i
    using gate_holds [OF that, of rip ?w0] gate by simp
  show ?thesis
  proof (cases ok)
    case False
    then have "process_file s limit rip lip fa f (w, count, shown) = (w2, count, shown)"
      using no_skip gate by (simp add: process_file_def Let_def cmd_def)
    moreover have pF: "(\<not> gate_enabled s \<or> fsize fa = BadFact \<or>
             (fsize fa = NoFact \<and> size_reply f 1 = None)) = False"
      using passes False by blast
    ultimately show ?thesis unfolding pF using no_skip es fs2 retr2 by simp
  next
    case True
    obtain downloaded w3 where dl: "download_file s rip lip f w2 = (downloaded, w3)"
      by (cases "download_file s rip lip f w2")
    obtain es' where es': "events w3 = events w2 @ es'" "filter is_skipping es' = []"
      using download_file_events [where s = s and rip = rip and lip = lip and f = f and w = w2] dl
      by auto
    have pf: "process_file s limit rip lip fa f (w, count, shown) =
          (w3, if downloaded then Suc count else count, shown)"
      using no_skip gate True dl by (simp add: process_file_def Let_def cmd_def)
    have finished: "downloaded \<and> fs w3 lip = Some (LFile (concat (chunks f)))"
      if a: "per_file_timeout s \<noteq> None" "fs w (lip @ ''.part'') \<noteq> Some LDir"
        "\<not> cut_short w f" "\<not> retr_raises f"
    proof -
      obtain t where t: "per_file_timeout s = Some t" using a(1) by auto
      have "\<not> cut_short w2 f" using a(3) stop2 by (simp add: cut_short_def)
      then have "fst (retrbinary (stop_is_set w2 f) 0 (chunks f) [])"
        by (simp add: transfer_completes)
      then have "fst (download_file s rip lip f w2)"
        using t a assms(2) fs2 by (intro download_file_succeeds) simp_all
      then show ?thesis
        using download_file_destination [where s = s and rip = rip and lip = lip and f = f and w = w2] dl
        by simp
    qed
    have hF: "(gate_enabled s \<and> (\<exists>i. fsize fa = Fact i) \<and> (\<forall>k. size_reply f k = None)) = False"
      using holds True by blast
    show ?thesis unfolding hF using no_skip pf es es' finished by simp
  qed
qed

theorem unknown_remote_size_downloads_again_witness:
  "fs (fst (process_file default_settings 5 ''/data/a'' ''mirror/a'' nlst_facts unknown_size_file
         (connected_state old_local, 0, 0))) ''mirror/a'' = Some (LFile ''abc'')
   \<and> fst (snd (process_file default_settings 5 ''/data/a'' ''mirror/a'' nlst_facts unknown_size_file
         (connected_state old_local, 0, 0))) = 1
   \<and> fs (fst (process_file stability_settings_3 5 ''/data/a'' ''mirror/a'' mlsd_facts_3
         unknown_size_file (connected_state old_local, 0, 0))) = fs (connected_state old_local)
   \<and> fst (snd (process_file stability_settings_3 5 ''/data/a'' ''mirror/a'' mlsd_facts_3
         unknown_size_file (connected_state old_local, 0, 0))) = 0"
proof -
  let ?w = "connected_state old_local"
  have 1: "size_reply unknown_size_file 0 = None" by (simp add: unknown_size_file_def)
  have 2: "fs ?w ''mirror/a'' = Some (LFile ''previous'')"
    by (simp add: connected_state_def init_state_def old_local_def)
  have 3: "\<not> gate_enabled default_settings"
    by (simp add: gate_enabled_def stability_settings_def default_settings_def)
  have 4: "per_file_timeout default_settings \<noteq> None" by (simp add: default_settings_def)
  have 5: "fs ?w (''mirror/a'' @ ''.part'') \<noteq> Some LDir"
    by (simp add: connected_state_def init_state_def old_local_def)
  have 6: "\<not> cut_short ?w unknown_size_file"
    by (simp add: cut_short_def unknown_size_file_def plain_file_def connected_state_def
          init_state_def)
  have 7: "\<not> retr_raises unknown_size_file" by (simp add: unknown_size_file_def plain_file_def)
  have 8: "concat (chunks unknown_size_file) = ''abc''"
    by (simp add: unknown_size_file_def plain_file_def)
  have 9: "gate_enabled stability_settings_3"
    by (simp add: gate_enabled_def stability_settings_def stability_settings_3_def
          default_settings_def)
  have 10: "\<exists>i. fsize mlsd_facts_3 = Fact i" by (simp add: mlsd_facts_3_def)
  have 11: "\<forall>k. size_reply unknown_size_file k = None" by (simp add: unknown_size_file_def)
  have a: "fs (fst (process_file default_settings 5 ''/data/a'' ''mirror/a'' nlst_facts
         unknown_size_file (?w, 0, 0))) ''mirror/a'' = Some (LFile ''abc'')
      \<and> fst (snd (process_file default_settings 5 ''/data/a'' ''mirror/a'' nlst_facts
         unknown_size_file (?w, 0, 0))) = 1"
    using unknown_remote_size_downloads_again [OF 1 2, where s = default_settings and limit = 5
        and rip = "''/data/a''" and fa = nlst_facts and count = 0 and shown = 0] 3 4 5 6 7 8
    by (cases "process_file default_settings 5 ''/data/a'' ''mirror/a'' nlst_facts unknown_size_file
         (?w, 0, 0)") simp
  have b: "fs (fst (process_file stability_settings_3 5 ''/data/a'' ''mirror/a'' mlsd_facts_3
         unknown_size_file (?w, 0, 0))) = fs ?w
      \<and> fst (snd (process_file stability_settings_3 5 ''/data/a'' ''mirror/a'' mlsd_facts_3
         unknown_size_file (?w, 0, 0))) = 0"
    using unknown_remote_size_downloads_again [OF 1 2, where s = stability_settings_3 and limit = 5
        and rip = "''/data/a''" and fa = mlsd_facts_3 and count = 0 and shown = 0] 9 10 11
    by (cases "process_file stability_settings_3 5 ''/data/a'' ''mirror/a'' mlsd_facts_3
         unknown_size_file (?w, 0, 0)") simp
  show ?thesis using a b by simp
qed

subsection \<open>The listing step\<close>

lemma nlst_probe_state:
  "\<exists>cs'. snd (nlst_probe cs w) = w\<lparr>ftp_cmds := ftp_cmds w @ cs'\<rparr> \<and> filter is_mlsd cs' = []"
proof (induction cs arbitrary: w)
  case Nil
  have "w = w\<lparr>ftp_cmds := ftp_cmds w @ []\<rparr>" by simp
  then show ?case by (metis filter.simps(1) nlst_probe.simps(1) snd_conv)
next
  case (Cons e cs)
  obtain name node where e: "e = (name, node)" by (cases e)
  have step: "\<exists>cs'. snd (nlst_probe cs (w\<lparr>ftp_cmds := ftp_cmds w @ pre\<rparr>)) = w\<lparr>ftp_cmds := ftp_cmds w @ cs'\<rparr>
                \<and> filter is_mlsd cs' = []" if "filter is_mlsd pre = []" for pre
  proof -
    obtain cs' where "snd (nlst_probe cs (w\<lparr>ftp_cmds := ftp_cmds w @ pre\<rparr>)) =
        (w\<lparr>ftp_cmds := ftp_cmds w @ pre\<rparr>)\<lparr>ftp_cmds := ftp_cmds (w\<lparr>ftp_cmds := ftp_cmds w @ pre\<rparr>) @ cs'\<rparr>"
      and "filter is_mlsd cs' = []"
      using Cons.IH by blast
    then have "snd (nlst_probe cs (w\<lparr>ftp_cmds := ftp_cmds w @ pre\<rparr>)) = w\<lparr>ftp_cmds := ftp_cmds w @ (pre @ cs')\<rparr>"
      and "filter is_mlsd (pre @ cs') = []"
      using that by simp_all
    then show ?thesis by blast
  qed
  show ?case
  proof (cases "name = ''.'' \<or> name = ''..''")
    case True
    then show ?thesis using Cons.IH [of w] by (simp add: e)
  next
    case False
    show ?thesis
    proof (cases "cwd_succeeds node")
      case True
      have "cmd (CWD ''..'') (cmd (CWD name) w) = w\<lparr>ftp_cmds := ftp_cmds w @ [CWD name, CWD ''..'']\<rparr>"
        by (simp add: cmd_def)
      then show ?thesis
        using step [of "[CWD name, CWD ''..'']"] False True
        by (simp add: e split_beta)
    next
      case nf: False
      have "cmd (CWD name) w = w\<lparr>ftp_cmds := ftp_cmds w @ [CWD name]\<rparr>"
        by (simp add: cmd_def)
      then show ?thesis
        using step [of "[CWD name]"] False nf
        by (simp add: e split_beta)
    qed
  qed
qed

lemma nlst_probe_items: "fst (nlst_probe cs w) = fst (nlst_probe cs w')"
proof (induction cs arbitrary: w w')
  case Nil
  then show ?case by simp
next
  case (Cons e cs)
  obtain name node where e: "e = (name, node)" by (cases e)
  show ?case
    using Cons.IH [of w w'] Cons.IH [of "cmd (CWD ''..'') (cmd (CWD name) w)" "cmd (CWD ''..'') (cmd (CWD name) w')"]
      Cons.IH [of "cmd (CWD name) w" "cmd (CWD name) w'"]
    by (simp add: e split_beta)
qed

text \<open>
  C9: where extended listing has not been found unsupported and MLSD succeeds with an empty
  sequence, the listing step records extended listing as supported, sends NLST for the same
  directory right after MLSD, and returns the items of the name listing (each name typed by
  the \<^verbatim>\<open>cwd\<close> probe), or none when NLST raises too.
\<close>

theorem empty_mlsd_falls_back_to_nlst:
  assumes "mlsd_supported w \<noteq> Some False"
    and "mlsd_reply d = MlsdEmpty \<or> (mlsd_reply d = MlsdEntries \<and> cs = [])"
  shows "case list_directory d cs w of
           (items, w') \<Rightarrow>
             mlsd_supported w' = Some True \<and>
             (\<exists>more. ftp_cmds w' = ftp_cmds w @ MLSD # NLST # more) \<and>
             items = (if nlst_ok d then fst (nlst_probe cs w) else [])"
proof -
  let ?w1 = "cmd MLSD w\<lparr>mlsd_supported := Some True\<rparr>"
  have flag: "mlsd_supported w = None \<or> mlsd_supported w = Some True"
    using assms(1) by (cases "mlsd_supported w") auto
  have mlsd: "try_mlsd d cs w = ([], ?w1)"
    using assms(2) flag by (auto simp: try_mlsd_def)
  show ?thesis
  proof (cases "nlst_ok d")
    case True
    obtain cs' where "snd (nlst_probe cs (cmd NLST ?w1)) =
        (cmd NLST ?w1)\<lparr>ftp_cmds := ftp_cmds (cmd NLST ?w1) @ cs'\<rparr>"
      using nlst_probe_state by blast
    then have "mlsd_supported (snd (nlst_probe cs (cmd NLST ?w1))) = Some True"
      and "ftp_cmds (snd (nlst_probe cs (cmd NLST ?w1))) = ftp_cmds w @ MLSD # NLST # cs'"
      by (simp_all add: cmd_def)
    moreover have "fst (nlst_probe cs (cmd NLST ?w1)) = fst (nlst_probe cs w)"
      by (rule nlst_probe_items)
    ultimately show ?thesis
      using True mlsd by (simp add: list_directory_def split_beta)
  next
    case False
    then show ?thesis using mlsd by (simp add: list_directory_def cmd_def emit_def)
  qed
qed

theorem empty_mlsd_falls_back_to_nlst_witness:
  "ftp_cmds (snd (list_directory empty_mlsd_dir [(''a'', RFile (plain_file [''ab'', ''c'']))]
                    (connected_state Map.empty))) = [MLSD, NLST, CWD ''a'']
   \<and> map fst (fst (list_directory empty_mlsd_dir [(''a'', RFile (plain_file [''ab'', ''c'']))]
                    (connected_state Map.empty))) = [''a'']"
proof -
  let ?w = "connected_state Map.empty"
  let ?cs = "[(''a'', RFile (plain_file [''ab'', ''c'']))]"
  have 1: "mlsd_supported ?w \<noteq> Some False"
    by (simp add: connected_state_def init_state_def)
  have 2: "mlsd_reply empty_mlsd_dir = MlsdEmpty \<or> (mlsd_reply empty_mlsd_dir = MlsdEntries \<and> ?cs = [])"
    by (simp add: empty_mlsd_dir_def)
  have 3: "fst (nlst_probe ?cs ?w) = [(''a'', \<lparr>ftype = TFile, fsize = NoFact\<rparr>, RFile (plain_file [''ab'', ''c'']))]"
    by simp
  have 4: "nlst_ok empty_mlsd_dir" by (simp add: empty_mlsd_dir_def)
  have 5: "ftp_cmds (snd (list_directory empty_mlsd_dir ?cs ?w)) = [MLSD, NLST, CWD ''a'']"
    by (simp add: list_directory_def try_mlsd_def empty_mlsd_dir_def connected_state_def
          init_state_def cmd_def)
  show ?thesis
    using empty_mlsd_falls_back_to_nlst [OF 1 2] 3 4 5
    by (cases "list_directory empty_mlsd_dir ?cs ?w") simp
qed

subsection \<open>What a traversal keeps\<close>

lemma kept_refl [simp]: "kept w w"
  by (simp add: kept_def)

lemma kept_trans: "kept w w1 \<Longrightarrow> kept w1 w2 \<Longrightarrow> kept w w2"
  by (auto simp: kept_def)

lemma kept_emit [simp]: "kept w (emit e w)"
  by (simp add: kept_def emit_def)

lemma kept_cmd [simp]: "\<not> is_mlsd c \<Longrightarrow> kept w (cmd c w)"
  by (simp add: kept_def cmd_def)

lemma kept_fs [simp]: "kept w (w\<lparr>fs := f\<rparr>)"
  by (simp add: kept_def)

lemma kept_nlst_probe: "kept w (snd (nlst_probe cs w))"
proof -
  obtain cs' where "snd (nlst_probe cs w) = w\<lparr>ftp_cmds := ftp_cmds w @ cs'\<rparr>" "filter is_mlsd cs' = []"
    using nlst_probe_state by blast
  then show ?thesis by (simp add: kept_def)
qed

lemma kept_try_mlsd: "kept w (snd (try_mlsd d cs w))"
  by (auto simp: try_mlsd_def kept_def cmd_def emit_def split: mlsd_reply.splits)

lemma kept_list_directory: "kept w (snd (list_directory d cs w))"
proof -
  have a: "kept w (snd (try_mlsd d cs w))" by (rule kept_try_mlsd)
  have b: "kept (snd (try_mlsd d cs w)) (cmd NLST (snd (try_mlsd d cs w)))" by simp
  have c: "kept (cmd NLST (snd (try_mlsd d cs w))) (snd (nlst_probe cs (cmd NLST (snd (try_mlsd d cs w)))))"
    by (rule kept_nlst_probe)
  have d: "kept (cmd NLST (snd (try_mlsd d cs w))) (emit EvNlstFailed (cmd NLST (snd (try_mlsd d cs w))))"
    by simp
  show ?thesis
    using a kept_trans [OF a kept_trans [OF b c]] kept_trans [OF a kept_trans [OF b d]]
    by (simp add: list_directory_def split_beta)
qed

lemma kept_stability_gate: "kept w (snd (stability_gate s rip fa f w))"
proof -
  have "filter is_mlsd (replicate n (SIZE p)) = []" for n p by (induction n) simp_all
  then show ?thesis
    by (auto simp: stability_gate_def initial_size_def kept_def emit_def cmd_def
          split: prod.splits option.splits size_fact.splits)
qed

lemma kept_delete_remote: "kept w (delete_remote e rip f w)"
  by (simp add: delete_remote_def kept_def emit_def cmd_def)

lemma kept_download_file: "kept w (snd (download_file s rip lip f w))"
  by (auto simp: download_file_def Let_def kept_def emit_def cmd_def delete_remote_def
        settimeout_def split: option.splits prod.splits)

lemma kept_process_file: "kept w (fst (process_file s limit rip lip fa f (w, count, shown)))"
proof (cases "already_downloaded (fs w) lip (size_reply f 0)")
  case True
  then show ?thesis
    by (simp add: process_file_def Let_def kept_def emit_def cmd_def delete_remote_def)
next
  case False
  let ?w0 = "emit (EvDownloading rip) (cmd (SIZE rip) w)"
  have a: "kept w ?w0" by (simp add: kept_def emit_def cmd_def)
  have b: "kept ?w0 (snd (stability_gate s rip fa f ?w0))" by (rule kept_stability_gate)
  have c: "kept (snd (stability_gate s rip fa f ?w0))
             (snd (download_file s rip lip f (snd (stability_gate s rip fa f ?w0))))"
    by (rule kept_download_file)
  show ?thesis
    using False kept_trans [OF a b] kept_trans [OF a kept_trans [OF b c]]
    by (simp add: process_file_def Let_def split_beta cmd_def)
qed

lemma kept_traversal:
  "kept w (fst (download_dir_recursive s rp lp node w))"
  "kept (fst acc) (fst (process_items s rp lp limit items acc))"
proof (induction s rp lp node w and s rp lp limit items acc
       rule: download_dir_recursive_process_items.induct)
  case (1 s rp lp f w)
  then show ?case by (simp add: kept_def emit_def cmd_def)
next
  case (2 s rp lp d cs w)
  let ?w2 = "if \<not> os_path_exists (fs w) lp
             then (cmd (CWD rp) w)\<lparr>fs := os_makedirs (fs w) lp\<rparr> else cmd (CWD rp) w"
  show ?case
  proof (cases "cwd_ok d")
    case False
    then show ?thesis by (simp add: kept_def emit_def cmd_def)
  next
    case True
    obtain items w3 where ld: "list_directory d cs ?w2 = (items, w3)"
      by (cases "list_directory d cs ?w2")
    have a: "kept w ?w2" by (simp add: kept_def cmd_def)
    have b: "kept ?w2 w3" using kept_list_directory [of ?w2 d cs] ld by simp
    show ?thesis
    proof (cases "skip_log_limit s")
      case None
      then show ?thesis using True ld kept_trans [OF kept_trans [OF a b] kept_emit]
        by simp
    next
      case (Some limit)
      have "kept w3 (fst (process_items s rp lp limit items (w3, 0, 0)))"
        using "2.IH" [OF _ ld [symmetric] Some] True by simp
      then show ?thesis using True ld Some kept_trans [OF kept_trans [OF a b]]
        by (simp add: split_beta)
    qed
  qed
next
  case (3 s rp lp limit acc)
  then show ?case by simp
next
  case (4 s rp lp limit name fa node rest w count skip_logs_shown)
  show ?case
  proof (cases "name = ''.'' \<or> name = ''..''")
    case True
    then show ?thesis using "4.IH"(1) by simp
  next
    case False
    show ?thesis
    proof (cases "ftype fa")
      case TDir
      obtain w' c where r: "download_dir_recursive s (remote_item_path rp name) (os_path_join lp name) node w = (w', c)"
        by (cases "download_dir_recursive s (remote_item_path rp name) (os_path_join lp name) node w")
      have a: "kept w w'" using "4.IH"(2) [OF False TDir] r by simp
      have b: "kept w' (fst (process_items s rp lp limit rest (w', count + c, skip_logs_shown)))"
        using "4.IH"(3) [OF False TDir r [symmetric]] by simp
      show ?thesis using False TDir r kept_trans [OF a b] by simp
    next
      case TFile
      let ?acc = "process_file s limit (remote_item_path rp name) (os_path_join lp name) fa (as_file node)
                    (w, count, skip_logs_shown)"
      have a: "kept w (fst ?acc)" by (rule kept_process_file)
      have b: "kept (fst ?acc) (fst (process_items s rp lp limit rest ?acc))"
        using "4.IH"(4) [OF False TFile] by simp
      show ?thesis using False TFile kept_trans [OF a b] by simp
    next
      case TOther
      then show ?thesis using False "4.IH"(5) by simp
    qed
  qed
qed

subsection \<open>Connections\<close>

lemma attempts: "[0..<max_retries] = [0, 1, 2]"
  by (simp add: max_retries_def upt_rec)

lemma cleanup_connections_keeps:
  "mlsd_supported (cleanup_connections w) = mlsd_supported w"
  "filter is_mlsd (ftp_cmds (cleanup_connections w)) = filter is_mlsd (ftp_cmds w)"
  "connection_failures (cleanup_connections w) = connection_failures w"
  "ftp_connection (cleanup_connections w) = None"
  by (simp_all add: cleanup_connections_def cmd_def split: option.splits)

lemma reset_connections_keeps:
  "mlsd_supported (reset_connections w) = mlsd_supported w"
  "filter is_mlsd (ftp_cmds (reset_connections w)) = filter is_mlsd (ftp_cmds w)"
  "connection_failures (reset_connections w) = 0"
  "ftp_connection (reset_connections w) = None"
  by (simp_all add: reset_connections_def cleanup_connections_def cmd_def emit_def split: option.splits)

lemma connection_attempts_keeps:
  "mlsd_supported (connection_attempts env as w) = mlsd_supported w \<and>
   filter is_mlsd (ftp_cmds (connection_attempts env as w)) = filter is_mlsd (ftp_cmds w) \<and>
   connection_failures (connection_attempts env as w) = connection_failures w \<and>
   cycle_count (connection_attempts env as w) = cycle_count w"
proof (induction as arbitrary: w)
  case Nil
  then show ?case by simp
next
  case (Cons a as)
  show ?case
    by (simp add: Let_def Cons.IH cmd_def emit_def cleanup_connections_def split: option.splits)
qed

lemma connection_attempts_fail_unconnected:
  assumes "ftp_connection w = None" and "\<forall>k\<in>set as. \<not> connect_ok env k"
  shows "ftp_connection (connection_attempts env as w) = None"
  using assms
proof (induction as arbitrary: w)
  case Nil
  then show ?case by simp
next
  case (Cons a as)
  then show ?case by (simp add: Let_def cmd_def emit_def)
qed

lemma connection_attempts_fail:
  assumes "ftp_connection w = None \<or> \<not> pwd_alive env" and "\<forall>k\<in>set (a # as). \<not> connect_ok env k"
  shows "ftp_connection (connection_attempts env (a # as) w) = None"
proof -
  have "ftp_connection (connection_attempts env as w') = None" if "ftp_connection w' = None" for w'
    using that assms(2) by (intro connection_attempts_fail_unconnected) simp_all
  then show ?thesis
    using assms
    by (auto simp: Let_def cmd_def emit_def cleanup_connections_def split: option.splits)
qed

lemma get_or_create_fails:
  assumes "ftp_connection w = None \<or> \<not> pwd_alive env" and "\<forall>k<max_retries. \<not> connect_ok env k"
  shows "ftp_connection (get_or_create_ftp_connection env w) = None"
  unfolding get_or_create_ftp_connection_def attempts
  by (rule connection_attempts_fail) (use assms in \<open>simp_all add: max_retries_def\<close>)

lemma perform_ftp_download_keeps:
  "connection_failures (fst (perform_ftp_download s env w)) = connection_failures w \<or>
   connection_failures (fst (perform_ftp_download s env w)) = 0"
  "mlsd_supported w = Some False \<Longrightarrow>
     mlsd_supported (fst (perform_ftp_download s env w)) = Some False \<and>
     filter is_mlsd (ftp_cmds (fst (perform_ftp_download s env w))) = filter is_mlsd (ftp_cmds w)"
proof -
  let ?w1 = "get_or_create_ftp_connection env w"
  have c: "mlsd_supported ?w1 = mlsd_supported w"
    "filter is_mlsd (ftp_cmds ?w1) = filter is_mlsd (ftp_cmds w)"
    "connection_failures ?w1 = connection_failures w"
    using connection_attempts_keeps [of env "[0..<max_retries]" w]
    by (simp_all add: get_or_create_ftp_connection_def)
  have k: "kept ?w1 (fst (download_dir_recursive s rp lp (remote_root env) ?w1))" for rp lp
    by (rule kept_traversal)
  show "connection_failures (fst (perform_ftp_download s env w)) = connection_failures w \<or>
        connection_failures (fst (perform_ftp_download s env w)) = 0"
    using c k
    by (auto simp: perform_ftp_download_def Let_def reset_connections_keeps kept_def
          split: option.splits)
  show "mlsd_supported (fst (perform_ftp_download s env w)) = Some False \<and>
     filter is_mlsd (ftp_cmds (fst (perform_ftp_download s env w))) = filter is_mlsd (ftp_cmds w)"
    if "mlsd_supported w = Some False"
    using c k that
    by (auto simp: perform_ftp_download_def Let_def reset_connections_keeps kept_def emit_def
          split: option.splits)
qed

lemma perform_periodic_cleanup_keeps:
  "mlsd_supported (perform_periodic_cleanup t w) = mlsd_supported w"
  "filter is_mlsd (ftp_cmds (perform_periodic_cleanup t w)) = filter is_mlsd (ftp_cmds w)"
  "connection_failures (perform_periodic_cleanup t w) = connection_failures w"
  by (simp_all add: perform_periodic_cleanup_def cleanup_connections_keeps emit_def
        cleanup_connections_def cmd_def split: option.splits)


lemma cycle_body_keeps:
  "connection_failures (cycle_body s env w) = connection_failures w \<or>
   connection_failures (cycle_body s env w) = 0"
  "mlsd_supported w = Some False \<Longrightarrow>
     mlsd_supported (cycle_body s env w) = Some False \<and>
     filter is_mlsd (ftp_cmds (cycle_body s env w)) = filter is_mlsd (ftp_cmds w)"
proof -
  let ?w1 = "emit (EvCycleStart (cycle_count w)) w"
  have "connection_failures ?w1 = connection_failures w" by (simp add: emit_def)
  with perform_ftp_download_keeps(1) [of s env ?w1]
  show "connection_failures (cycle_body s env w) = connection_failures w \<or>
        connection_failures (cycle_body s env w) = 0"
    by (auto simp: cycle_body_def split_beta perform_periodic_cleanup_keeps emit_def)
  show "mlsd_supported (cycle_body s env w) = Some False \<and>
     filter is_mlsd (ftp_cmds (cycle_body s env w)) = filter is_mlsd (ftp_cmds w)"
    if "mlsd_supported w = Some False"
  proof -
    have "mlsd_supported ?w1 = Some False" using that by (simp add: emit_def)
    from perform_ftp_download_keeps(2) [OF this, of s env]
    show ?thesis
      by (simp add: cycle_body_def split_beta perform_periodic_cleanup_keeps emit_def)
  qed
qed

lemma formats_small:
  assumes "\<bar>n\<bar> < 10 ^ k" and "k \<le> max_str_digits"
  shows "formats n"
proof -
  have "(10::int) ^ k \<le> 10 ^ max_str_digits"
    using assms(2) by (intro power_increasing) simp_all
  then show ?thesis unfolding formats_def using assms(1) by linarith
qed

lemma formats_60: "formats 60"
  by (rule formats_small [where k = 2]) (simp_all add: max_str_digits_def)


lemma run_cycle_no_exception:
  assumes "interval s = Some iv" and "formats iv"
    and "iv \<le> timeout_max \<or> stop_event (cycle_body s env (w\<lparr>cycle_count := cycle_count w + 1\<rparr>))"
  shows "run_cycle s env w = cycle_body s env (w\<lparr>cycle_count := cycle_count w + 1\<rparr>)"
  using assms by (auto simp: run_cycle_def Let_def)

lemma run_cycle_wait_raises:
  assumes "interval s = Some iv" and "formats iv" and "timeout_max < iv"
    and "\<not> stop_event (cycle_body s env (w\<lparr>cycle_count := cycle_count w + 1\<rparr>))"
  shows "run_cycle s env w = loop_error (cycle_body s env (w\<lparr>cycle_count := cycle_count w + 1\<rparr>))"
  using assms by (simp add: run_cycle_def Let_def)


subsection \<open>The listing capability across sessions\<close>




subsection \<open>The failure counter of the cycle\<close>

lemma download_dir_recursive_top_error:
  "\<not> cwd_succeeds node \<Longrightarrow>
   download_dir_recursive s rp lp node w = (emit (EvProcessDirError rp) (cmd (CWD rp) w), 0)"
  by (cases node) simp_all

lemma list_directory_fails:
  assumes "\<not> nlst_ok d" and "mlsd_reply d \<noteq> MlsdEntries \<or> mlsd_supported w = Some False"
  shows "fst (list_directory d cs w) = []"
    and "EvNlstFailed \<in> set (events (snd (list_directory d cs w)))"
  using assms
  by (auto simp: list_directory_def try_mlsd_def emit_def cmd_def split: mlsd_reply.splits)

lemma download_dir_recursive_list_error:
  assumes "\<not> nlst_ok d" and "mlsd_reply d \<noteq> MlsdEntries \<or> mlsd_supported w = Some False"
  shows "snd (download_dir_recursive s rp lp (RDir d cs) w) = 0"
proof (cases "cwd_ok d")
  case False
  then show ?thesis by simp
next
  case True
  let ?w2 = "if \<not> os_path_exists (fs w) lp
             then (cmd (CWD rp) w)\<lparr>fs := os_makedirs (fs w) lp\<rparr> else cmd (CWD rp) w"
  have "mlsd_reply d \<noteq> MlsdEntries \<or> mlsd_supported ?w2 = Some False"
    using assms(2) by (auto simp: cmd_def)
  from list_directory_fails(1) [OF assms(1) this, of cs]
  obtain w3 where ld: "list_directory d cs ?w2 = ([], w3)"
    by (cases "list_directory d cs ?w2") simp
  show ?thesis
    using True ld by (cases "skip_log_limit s") simp_all
qed

lemma cycle_body_no_download:
  assumes "remote_path s \<noteq> None" and "local_path s \<noteq> None"
    and "snd (perform_ftp_download s env (emit (EvCycleStart (cycle_count w)) w)) = 0"
  shows "connection_failures (cycle_body s env w) = connection_failures w"
proof -
  let ?w1 = "emit (EvCycleStart (cycle_count w)) w"
  let ?w2 = "get_or_create_ftp_connection env ?w1"
  have cf: "connection_failures ?w2 = connection_failures w"
    using connection_attempts_keeps [of env "[0..<max_retries]" ?w1]
    by (simp add: get_or_create_ftp_connection_def emit_def)
  have k: "kept ?w2 (fst (download_dir_recursive s rp lp (remote_root env) ?w2))" for rp lp
    by (rule kept_traversal)
  have "connection_failures (fst (perform_ftp_download s env ?w1)) = connection_failures w"
    using assms(1,2) cf k by (auto simp: perform_ftp_download_def Let_def kept_def)
  then show ?thesis
    using assms(3)
    by (simp add: cycle_body_def split_beta perform_periodic_cleanup_keeps emit_def)
qed

lemma cycle_body_connect_failure:
  assumes "ftp_connection w = None \<or> \<not> pwd_alive env"
    and "\<forall>k<max_retries. \<not> connect_ok env k"
  shows "connection_failures (cycle_body s env w) = connection_failures w \<and>
         ftp_connection (cycle_body s env w) = None \<and>
         stop_event (cycle_body s env w) = stop_event w"
proof -
  let ?w1 = "emit (EvCycleStart (cycle_count w)) w"
  let ?w2 = "get_or_create_ftp_connection env ?w1"
  have "ftp_connection ?w1 = None \<or> \<not> pwd_alive env" using assms(1) by (simp add: emit_def)
  then have none: "ftp_connection ?w2 = None"
    using assms(2) by (rule get_or_create_fails)
  have cf: "connection_failures ?w2 = connection_failures w"
    using connection_attempts_keeps [of env "[0..<max_retries]" ?w1]
    by (simp add: get_or_create_ftp_connection_def emit_def)
  have st: "stop_event (connection_attempts env as w') = stop_event w'" for as w'
    by (induction as arbitrary: w')
       (simp_all add: Let_def cmd_def emit_def cleanup_connections_def split: option.splits)
  have se: "stop_event ?w2 = stop_event w"
    by (simp add: get_or_create_ftp_connection_def st) (simp add: emit_def)
  have "perform_ftp_download s env ?w1 = (?w2, 0)"
    using none by (simp add: perform_ftp_download_def Let_def)
  then show ?thesis
    using none cf se
    by (auto simp: cycle_body_def perform_periodic_cleanup_def emit_def cleanup_connections_def)
qed

lemma cycle_body_top_level_error:
  assumes "remote_path s \<noteq> None" and "local_path s \<noteq> None"
    and "\<not> cwd_succeeds (remote_root env) \<or>
         (\<exists>d cs. remote_root env = RDir d cs \<and> \<not> nlst_ok d \<and>
            (mlsd_reply d \<noteq> MlsdEntries \<or> mlsd_supported w = Some False))"
  shows "connection_failures (cycle_body s env w) = connection_failures w"
proof (rule cycle_body_no_download [OF assms(1,2)])
  let ?w1 = "emit (EvCycleStart (cycle_count w)) w"
  let ?w2 = "get_or_create_ftp_connection env ?w1"
  have flag: "mlsd_supported ?w2 = mlsd_supported w"
    using connection_attempts_keeps [of env "[0..<max_retries]" ?w1]
    by (simp add: get_or_create_ftp_connection_def emit_def)
  have "snd (download_dir_recursive s rp lp (remote_root env) ?w2) = 0" for rp lp
  proof (cases "cwd_succeeds (remote_root env)")
    case False
    then show ?thesis by (simp add: download_dir_recursive_top_error)
  next
    case True
    then obtain d cs where r: "remote_root env = RDir d cs" "\<not> nlst_ok d"
      "mlsd_reply d \<noteq> MlsdEntries \<or> mlsd_supported w = Some False"
      using assms(3) by auto
    have "mlsd_reply d \<noteq> MlsdEntries \<or> mlsd_supported ?w2 = Some False"
      using r(3) flag by simp
    from download_dir_recursive_list_error [OF r(2) this] show ?thesis by (simp add: r(1))
  qed
  then show "snd (perform_ftp_download s env ?w1) = 0"
    by (auto simp: perform_ftp_download_def Let_def split: option.splits)
qed

text \<open>
  C5, as the claim states it, fails: a cycle in which all three connection attempts fail
  leaves the failure counter at 0.
\<close>

theorem connect_failure_not_counted_counterexample:
  "connection_failures (run_cycle default_settings unreachable_env (init_state 0 Map.empty)) = 0
   \<and> ftp_connection (run_cycle default_settings unreachable_env (init_state 0 Map.empty)) = None
   \<and> connection_failures (init_state 0 Map.empty) = 0"
  by (simp add: run_cycle_def cycle_body_def timeout_max_def formats_60 perform_ftp_download_def
        get_or_create_ftp_connection_def attempts
        unreachable_env_def reachable_env_def default_settings_def init_state_def Let_def
        perform_periodic_cleanup_def cleanup_interval_def cleanup_connections_def cmd_def emit_def)

text \<open>
  C5, amended: only an exception that reaches the handler of the loop in \<^verbatim>\<open>run\<close>
  increments the failure counter, and the code has three: an interval that is not a
  number, an interval that the message of line 59 cannot format, and an interval above
  \<open>timeout_max\<close>, for which the wait at the end of the cycle raises unless a stop is
  requested. In that handler the session is released and the counter set to zero exactly
  when the counter has reached 3. A cycle that raises none of them ends as its body does,
  and the body never increments the counter: it leaves it or sets it to 0. In particular a
  connect failure after all attempts does not propagate: the cycle leaves the counter as it
  is, with no connection; and so does a failure to enter the top-level directory, and a
  failure to list it (NLST raises, and MLSD raises, returns nothing or is known to be
  unsupported).
\<close>

theorem failure_counter_counts_loop_errors_only:
  "(interval s = None \<or> (interval s = Some iv \<and> \<not> formats iv) \<longrightarrow>
      run_cycle s env w = loop_error (w\<lparr>cycle_count := cycle_count w + 1\<rparr>))
   \<and> (interval s = Some iv \<and> formats iv \<and> timeout_max < iv \<and>
       \<not> stop_event (cycle_body s env (w\<lparr>cycle_count := cycle_count w + 1\<rparr>)) \<longrightarrow>
        run_cycle s env w = loop_error (cycle_body s env (w\<lparr>cycle_count := cycle_count w + 1\<rparr>)))
   \<and> connection_failures (loop_error w) =
       (if connection_failures w + 1 \<ge> 3 then 0 else connection_failures w + 1)
   \<and> ftp_connection (loop_error w) =
       (if connection_failures w + 1 \<ge> 3 then None else ftp_connection w)
   \<and> (interval s = Some iv \<and> formats iv \<and>
       (iv \<le> timeout_max \<or> stop_event (cycle_body s env (w\<lparr>cycle_count := cycle_count w + 1\<rparr>))) \<longrightarrow>
        run_cycle s env w = cycle_body s env (w\<lparr>cycle_count := cycle_count w + 1\<rparr>))
   \<and> (connection_failures (cycle_body s env w) = connection_failures w \<or>
      connection_failures (cycle_body s env w) = 0)
   \<and> (interval s = Some iv \<and> formats iv \<and> iv \<le> timeout_max \<and>
       (ftp_connection w = None \<or> \<not> pwd_alive env) \<and>
       (\<forall>k<max_retries. \<not> connect_ok env k) \<longrightarrow>
        connection_failures (run_cycle s env w) = connection_failures w \<and>
        ftp_connection (run_cycle s env w) = None)
   \<and> (interval s = Some iv \<and> formats iv \<and> iv \<le> timeout_max \<and>
       remote_path s \<noteq> None \<and> local_path s \<noteq> None \<and>
       \<not> cwd_succeeds (remote_root env) \<longrightarrow>
        connection_failures (run_cycle s env w) = connection_failures w)
   \<and> (interval s = Some iv \<and> formats iv \<and> iv \<le> timeout_max \<and>
       remote_path s \<noteq> None \<and> local_path s \<noteq> None \<and>
       remote_root env = RDir d cs \<and> \<not> nlst_ok d \<and>
       (mlsd_reply d \<noteq> MlsdEntries \<or> mlsd_supported w = Some False) \<longrightarrow>
        connection_failures (run_cycle s env w) = connection_failures w)"
proof -
  let ?w1 = "w\<lparr>cycle_count := cycle_count w + 1\<rparr>"
  have a: "interval s = None \<or> (interval s = Some iv \<and> \<not> formats iv) \<longrightarrow>
      run_cycle s env w = loop_error ?w1"
    by (auto simp: run_cycle_def Let_def)
  have a': "interval s = Some iv \<and> formats iv \<and> timeout_max < iv \<and>
       \<not> stop_event (cycle_body s env ?w1) \<longrightarrow>
        run_cycle s env w = loop_error (cycle_body s env ?w1)"
    using run_cycle_wait_raises [of s iv env w] by blast
  have b: "connection_failures (loop_error w) =
       (if connection_failures w + 1 \<ge> 3 then 0 else connection_failures w + 1)"
    by (simp add: loop_error_def Let_def max_connection_failures_def reset_connections_keeps emit_def)
  have c: "ftp_connection (loop_error w) =
       (if connection_failures w + 1 \<ge> 3 then None else ftp_connection w)"
    by (simp add: loop_error_def Let_def max_connection_failures_def reset_connections_keeps emit_def)
  have d: "interval s = Some iv \<and> formats iv \<and>
       (iv \<le> timeout_max \<or> stop_event (cycle_body s env ?w1)) \<longrightarrow>
        run_cycle s env w = cycle_body s env ?w1"
    using run_cycle_no_exception [of s iv env w] by blast
  have e: "connection_failures (cycle_body s env w) = connection_failures w \<or>
      connection_failures (cycle_body s env w) = 0"
    by (rule cycle_body_keeps(1))
  have f: "connection_failures (run_cycle s env w) = connection_failures w \<and>
        ftp_connection (run_cycle s env w) = None"
    if "interval s = Some iv" "formats iv" "iv \<le> timeout_max"
      "ftp_connection w = None \<or> \<not> pwd_alive env" "\<forall>k<max_retries. \<not> connect_ok env k"
  proof -
    have "ftp_connection ?w1 = None \<or> \<not> pwd_alive env" using that(4) by simp
    from cycle_body_connect_failure [OF this that(5), of s]
    show ?thesis using run_cycle_no_exception [of s iv env w] that(1-3) by simp
  qed
  have g: "connection_failures (run_cycle s env w) = connection_failures w"
    if "interval s = Some iv" "formats iv" "iv \<le> timeout_max"
      "remote_path s \<noteq> None" "local_path s \<noteq> None"
      "\<not> cwd_succeeds (remote_root env) \<or>
         (\<exists>d cs. remote_root env = RDir d cs \<and> \<not> nlst_ok d \<and>
            (mlsd_reply d \<noteq> MlsdEntries \<or> mlsd_supported w = Some False))"
  proof -
    have "\<not> cwd_succeeds (remote_root env) \<or>
         (\<exists>d cs. remote_root env = RDir d cs \<and> \<not> nlst_ok d \<and>
            (mlsd_reply d \<noteq> MlsdEntries \<or> mlsd_supported ?w1 = Some False))"
      using that(6) by simp
    from cycle_body_top_level_error [OF that(4,5) this]
    show ?thesis using run_cycle_no_exception [of s iv env w] that(1-3) by simp
  qed
  have g1: "interval s = Some iv \<and> formats iv \<and> iv \<le> timeout_max \<and>
       remote_path s \<noteq> None \<and> local_path s \<noteq> None \<and>
       \<not> cwd_succeeds (remote_root env) \<longrightarrow>
        connection_failures (run_cycle s env w) = connection_failures w"
    using g by blast
  have g2: "interval s = Some iv \<and> formats iv \<and> iv \<le> timeout_max \<and>
       remote_path s \<noteq> None \<and> local_path s \<noteq> None \<and>
       remote_root env = RDir d cs \<and> \<not> nlst_ok d \<and>
       (mlsd_reply d \<noteq> MlsdEntries \<or> mlsd_supported w = Some False) \<longrightarrow>
        connection_failures (run_cycle s env w) = connection_failures w"
    using g by blast
  have f': "interval s = Some iv \<and> formats iv \<and> iv \<le> timeout_max \<and>
       (ftp_connection w = None \<or> \<not> pwd_alive env) \<and>
       (\<forall>k<max_retries. \<not> connect_ok env k) \<longrightarrow>
        connection_failures (run_cycle s env w) = connection_failures w \<and>
        ftp_connection (run_cycle s env w) = None"
    using f by blast
  show ?thesis
    by (intro conjI a a' b c d e f' g1 g2)
qed

theorem failure_counter_counts_loop_errors_only_witness:
  "connection_failures (run_cycle bad_interval_settings reachable_env
      ((connected_state Map.empty)\<lparr>connection_failures := 2\<rparr>)) = 0
   \<and> ftp_connection (run_cycle bad_interval_settings reachable_env
      ((connected_state Map.empty)\<lparr>connection_failures := 2\<rparr>)) = None
   \<and> connection_failures (run_cycle unformattable_settings reachable_env
      ((connected_state Map.empty)\<lparr>connection_failures := 2\<rparr>)) = 0
   \<and> connection_failures (run_cycle default_settings unreachable_env
      ((connected_state Map.empty)\<lparr>connection_failures := 2\<rparr>)) = 2
   \<and> connection_failures (run_cycle default_settings unlistable_env
      ((connected_state Map.empty)\<lparr>connection_failures := 2\<rparr>)) = 2
   \<and> connection_failures (run_cycle huge_interval_settings unreachable_env
      (init_state 0 Map.empty)) = 1"
proof -
  let ?w = "(connected_state Map.empty)\<lparr>connection_failures := 2\<rparr>"
  let ?w' = "?w\<lparr>cycle_count := cycle_count ?w + 1\<rparr>"
  let ?v = "init_state 0 Map.empty"
  let ?v' = "?v\<lparr>cycle_count := cycle_count ?v + 1\<rparr>"
  have 1: "interval bad_interval_settings = None"
    by (simp add: bad_interval_settings_def)
  have 2: "interval default_settings = Some 60" "(60::int) \<le> timeout_max"
    "remote_path default_settings \<noteq> None" "local_path default_settings \<noteq> None"
    by (simp_all add: default_settings_def timeout_max_def)
  have 3: "ftp_connection ?w = None \<or> \<not> pwd_alive unreachable_env"
    by (simp add: unreachable_env_def)
  have 4: "\<forall>k<max_retries. \<not> connect_ok unreachable_env k"
    by (simp add: unreachable_env_def)
  have 5: "connection_failures ?w' = 2" "connection_failures ?w = 2" by simp_all
  have 6: "remote_root unlistable_env = RDir unlistable_dir []" "\<not> nlst_ok unlistable_dir"
    "mlsd_reply unlistable_dir \<noteq> MlsdEntries"
    by (simp_all add: unlistable_env_def unlistable_dir_def)
  have 7: "interval huge_interval_settings = Some 10000000000" "timeout_max < (10000000000::int)"
    by (simp_all add: huge_interval_settings_def timeout_max_def)
  have 10: "formats 10000000000"
    by (rule formats_small [where k = 11]) (simp_all add: max_str_digits_def)
  have 8: "\<not> stop_event (cycle_body huge_interval_settings unreachable_env ?v')"
    "connection_failures (cycle_body huge_interval_settings unreachable_env ?v') = 0"
    by (simp_all add: cycle_body_def perform_ftp_download_def get_or_create_ftp_connection_def
        attempts unreachable_env_def reachable_env_def init_state_def Let_def
        perform_periodic_cleanup_def cleanup_interval_def cleanup_connections_def cmd_def emit_def)
  have 9: "interval unformattable_settings = Some (10 ^ max_str_digits)"
    "\<not> formats (10 ^ max_str_digits)"
    by (simp_all add: unformattable_settings_def formats_def)
  note A = failure_counter_counts_loop_errors_only [where s = bad_interval_settings
      and env = reachable_env and w = ?w]
  note A' = failure_counter_counts_loop_errors_only [where s = bad_interval_settings and w = ?w']
  note U = failure_counter_counts_loop_errors_only [where s = unformattable_settings
      and iv = "10 ^ max_str_digits" and env = reachable_env and w = ?w]
  note B = failure_counter_counts_loop_errors_only [where s = default_settings and iv = 60
      and env = unreachable_env and w = ?w]
  note C = failure_counter_counts_loop_errors_only [where s = default_settings and iv = 60
      and env = unlistable_env and w = ?w and d = unlistable_dir and cs = "[]"]
  note D = failure_counter_counts_loop_errors_only [where s = huge_interval_settings
      and iv = 10000000000 and env = unreachable_env and w = ?v]
  note D' = failure_counter_counts_loop_errors_only [where s = huge_interval_settings
      and w = "cycle_body huge_interval_settings unreachable_env ?v'"]
  have r: "run_cycle bad_interval_settings reachable_env ?w = loop_error ?w'"
    using A 1 by blast
  have x: "connection_failures (loop_error ?w') = 0" "ftp_connection (loop_error ?w') = None"
    using A' 5(1) by simp_all
  have r': "run_cycle unformattable_settings reachable_env ?w = loop_error ?w'"
    using U 9 by blast
  have "connection_failures (run_cycle default_settings unreachable_env ?w) =
      connection_failures ?w"
    using B 2 3 4 formats_60 by blast
  then have y: "connection_failures (run_cycle default_settings unreachable_env ?w) = 2"
    by simp
  have "connection_failures (run_cycle default_settings unlistable_env ?w) =
      connection_failures ?w"
    using C 2 6 formats_60 by blast
  then have z: "connection_failures (run_cycle default_settings unlistable_env ?w) = 2"
    by simp
  have "run_cycle huge_interval_settings unreachable_env ?v =
      loop_error (cycle_body huge_interval_settings unreachable_env ?v')"
    using D 7 10 8(1) by blast
  moreover have "connection_failures
      (loop_error (cycle_body huge_interval_settings unreachable_env ?v')) = 1"
    using D' 8(2) by simp
  ultimately have u: "connection_failures (run_cycle huge_interval_settings unreachable_env ?v) = 1"
    by simp
  show ?thesis using r r' x y z u by simp
qed

subsection \<open>Skip messages of a cycle\<close>

lemma paths_two_dir_tree:
  "remote_item_path ''/data'' ''a'' = ''/data/a''"
  "remote_item_path ''/data'' ''sub'' = ''/data/sub''"
  "remote_item_path ''/data/sub'' ''b'' = ''/data/sub/b''"
  "os_path_join ''mirror'' ''a'' = ''mirror/a''"
  "os_path_join ''mirror'' ''sub'' = ''mirror/sub''"
  "os_path_join ''mirror/sub'' ''b'' = ''mirror/sub/b''"
  by (simp_all add: remote_item_path_def os_path_join_def)

text \<open>
  C4, at an input where the code departs from it: with a limit of one skip message, a
  traversal of a root that holds one mirrored file and a subdirectory with another emits two
  skip messages. \<^verbatim>\<open>skip_logs_shown\<close> is a local variable of \<^verbatim>\<open>download_dir_recursive\<close> and
  starts at 0 in the call for every directory.
\<close>

theorem skip_limit_is_per_directory:
  "filter is_skipping (events (fst (download_dir_recursive one_skip_log ''/data'' ''mirror''
      two_dir_tree (connected_state mirrored)))) = [EvSkipping ''/data/a'', EvSkipping ''/data/sub/b'']
   \<and> skip_log_limit one_skip_log = Some 1"
  by (simp add: two_dir_tree_def mirrored_def one_skip_log_def default_settings_def
        connected_state_def init_state_def mlsd_dir_def plain_file_def paths_two_dir_tree
        list_directory_def try_mlsd_def process_file_def already_downloaded_def
        os_path_exists_def os_path_getsize_def cmd_def emit_def Let_def)

subsection \<open>Local paths of the entries of a directory\<close>

lemma join_plain:
  assumes "plain_name n"
  shows "os_path_join lp n = (if lp = [] \<or> last lp = CHR ''/'' then lp else lp @ ''/'') @ n"
  using assms by (cases n) (auto simp: os_path_join_def plain_name_def)

lemma join_nice:
  assumes "plain_name n"
  shows "os_path_join lp n \<noteq> []" and "last (os_path_join lp n) \<noteq> CHR ''/''"
proof -
  have "last n \<in> set n" "n \<noteq> []" "CHR ''/'' \<notin> set n"
    using assms by (simp_all add: plain_name_def)
  then have "last n \<noteq> CHR ''/''" by metis
  then show "os_path_join lp n \<noteq> []" and "last (os_path_join lp n) \<noteq> CHR ''/''"
    using assms \<open>n \<noteq> []\<close> by (simp_all add: join_plain)
qed

lemma join_join:
  assumes "plain_name n" and "plain_name m"
  shows "os_path_join (os_path_join lp n) m = os_path_join lp n @ ''/'' @ m"
  using join_nice [OF assms(1), of lp] by (simp add: join_plain [OF assms(2)])

lemma under_nested:
  assumes "plain_name n" and "plain_name m"
  shows "under (os_path_join (os_path_join lp n) m) \<subseteq> under (os_path_join lp n)"
  by (auto simp: under_def join_join [OF assms])

lemma under_self: "lip \<in> under lip" "lip @ ''.part'' \<in> under lip"
  by (simp_all add: under_def)

lemma slash_split:
  assumes "a @ ''/'' @ r = b @ ''/'' @ r'" and "CHR ''/'' \<notin> set a" and "CHR ''/'' \<notin> set b"
  shows "a = b"
proof -
  have "takeWhile (\<lambda>c. c \<noteq> CHR ''/'') (x @ ''/'' @ y) = x" if "CHR ''/'' \<notin> set x" for x y
    using that by (induction x) auto
  from this [OF assms(2), of r] this [OF assms(3), of r'] assms(1) show ?thesis by simp
qed

lemma under_disjoint:
  assumes "plain_name a" and "plain_name b" and "a \<noteq> b"
    and "a \<noteq> b @ ''.part''" and "b \<noteq> a @ ''.part''"
  shows "under (os_path_join lp a) \<inter> under (os_path_join lp b) = {}"
proof -
  let ?P = "if lp = [] \<or> last lp = CHR ''/'' then lp else lp @ ''/''"
  have na: "CHR ''/'' \<notin> set a" and nb: "CHR ''/'' \<notin> set b"
    using assms(1,2) by (simp_all add: plain_name_def)
  have 1: "a \<noteq> b @ ''/'' @ r" for r using na by auto
  have 2: "b \<noteq> a @ ''/'' @ r" for r using nb by auto
  have 3: "a @ ''.part'' \<noteq> b @ ''/'' @ r" for r
  proof
    assume "a @ ''.part'' = b @ ''/'' @ r"
    then have "CHR ''/'' \<in> set (a @ ''.part'')" by simp
    then show False using na by simp
  qed
  have 4: "b @ ''.part'' \<noteq> a @ ''/'' @ r" for r
  proof
    assume "b @ ''.part'' = a @ ''/'' @ r"
    then have "CHR ''/'' \<in> set (b @ ''.part'')" by simp
    then show False using nb by simp
  qed
  have 5: "a @ ''/'' @ r \<noteq> b @ ''/'' @ r'" for r r'
    using slash_split [OF _ na nb] assms(3) by blast
  have suffixes: "under a \<inter> under b = {}"
    unfolding under_def using assms(3-5) 1 2 3 4 5 by auto
  have shift: "under (?P @ x) = (\<lambda>y. ?P @ y) ` under x" for x
    unfolding under_def by (auto simp: image_iff)
  have "under (?P @ a) \<inter> under (?P @ b) = {}"
    unfolding shift using suffixes by (auto simp: image_iff)
  then show ?thesis
    using assms(1,2) by (simp add: join_plain)
qed

subsection \<open>One file, whatever the server does\<close>

lemma grows_refl [simp]: "grows w w"
  by (simp add: grows_def)

lemma grows_trans: "grows w w1 \<Longrightarrow> grows w1 w2 \<Longrightarrow> grows w w2"
  by (simp add: grows_def)

lemma retrbinary_stopped:
  "is_set i \<Longrightarrow> cs \<noteq> [] \<Longrightarrow> \<not> fst (retrbinary is_set i cs written)"
  by (cases cs) simp_all

lemma retrbinary_aborted:
  "\<not> fst (retrbinary is_set i cs written) \<Longrightarrow> cs \<noteq> []"
  by (cases cs) simp_all

lemma download_file_grows: "grows w (snd (download_file s rip lip f w))"
  by (auto simp: download_file_def Let_def grows_def cmd_def emit_def delete_remote_def
        split: option.splits prod.splits)

lemma download_file_done:
  assumes "fst (download_file s rip lip f w)"
  shows "per_file_timeout s \<noteq> None" and "\<not> retr_raises f"
    and "fst (retrbinary (stop_is_set w f) 0 (chunks f) [])"
    and "fs w lip \<noteq> Some LDir" and "fs w (lip @ ''.part'') \<noteq> Some LDir"
    and "fs (snd (download_file s rip lip f w)) lip = Some (LFile (concat (chunks f)))"
proof -
  have c: "out = concat (chunks f)"
    if "retrbinary (stop_is_set w f) 0 (chunks f) [] = (True, out)" for out
    using retrbinary_completed [OF that] by simp
  show "per_file_timeout s \<noteq> None" and "\<not> retr_raises f"
    and "fst (retrbinary (stop_is_set w f) 0 (chunks f) [])"
    and "fs w lip \<noteq> Some LDir" and "fs w (lip @ ''.part'') \<noteq> Some LDir"
    using assms
    by (auto simp: download_file_def Let_def open_wb_def os_replace_def cmd_def emit_def
          delete_remote_def split: option.splits prod.splits if_splits)
  show "fs (snd (download_file s rip lip f w)) lip = Some (LFile (concat (chunks f)))"
    using assms c
    by (auto simp: download_file_def Let_def open_wb_def os_replace_def cmd_def emit_def
          delete_remote_def split: option.splits prod.splits if_splits)
qed

lemma download_file_failed:
  assumes "\<not> fst (download_file s rip lip f w)"
  shows "per_file_timeout s = None \<or> retr_raises f \<or>
         (stop_event (snd (download_file s rip lip f w)) \<and> chunks f \<noteq> []) \<or>
         fs (snd (download_file s rip lip f w)) lip = Some LDir \<or>
         fs (snd (download_file s rip lip f w)) (lip @ ''.part'') = Some LDir"
proof -
  have ne: "chunks f \<noteq> []" if "\<not> fst (retrbinary (stop_is_set w f) 0 (chunks f) [])"
    using that by (rule retrbinary_aborted)
  show ?thesis
    using assms ne
    by (auto simp: download_file_def Let_def open_wb_def os_replace_def cmd_def emit_def
          split: option.splits prod.splits if_splits)
qed

lemma truthful_gate:
  assumes "truthful f" and "fsize fa = NoFact \<or> fsize fa = size_fact f"
  shows "fst (stability_gate s rip fa f w)"
proof -
  let ?n = "int (length (concat (chunks f)))"
  have sz: "size_reply f (Suc 0) = Some ?n" "size_reply f 2 = Some ?n"
    using assms(1) by (simp_all add: truthful_def)
  have loop: "fst (stability_loop (size_reply f) q (nat ws) (Some ?n) 1)"
    if pos: "0 < ws" and q: "size_reply f q = Some ?n" for q ws
  proof -
    obtain m where "nat ws = Suc m" using pos by (cases "nat ws") auto
    then show ?thesis by (simp add: next_stable_count_def q)
  qed
  obtain en ws where ss: "stability_settings s = (en, ws)"
    by (cases "stability_settings s")
  show ?thesis
  proof (cases "en \<and> 0 < ws")
    case False
    then show ?thesis using ss by (auto simp: stability_gate_def)
  next
    case True
    have "fsize fa = NoFact \<or> fsize fa = BadFact \<or> fsize fa = Fact ?n"
      using assms by (auto simp: truthful_def)
    then consider
      (query) "initial_size rip fa f w = (Some ?n, 2, cmd (SIZE rip) w)"
      | (bad) "initial_size rip fa f w = (None, 1, w)"
      | (fact) "initial_size rip fa f w = (Some ?n, 1, w)"
      by (auto simp: initial_size_def sz(1))
    then show ?thesis
    proof cases
      case query
      then show ?thesis
        using True ss loop [of ws 2] sz(2) by (simp add: stability_gate_def split_beta)
    next
      case bad
      then show ?thesis using True ss by (simp add: stability_gate_def)
    next
      case fact
      then show ?thesis
        using True ss loop [of ws "Suc 0"] sz(1) by (simp add: stability_gate_def split_beta)
    qed
  qed
qed

lemma stability_gate_mlsd_supported:
  "mlsd_supported (snd (stability_gate s rip fa f w)) = mlsd_supported w"
  by (auto simp: stability_gate_def initial_size_def emit_def cmd_def
           split: prod.splits option.splits size_fact.splits)

lemma process_file_frame:
  assumes "q \<noteq> lip" and "q \<noteq> lip @ ''.part''"
  shows "fs (fst (process_file s limit rip lip fa f (w, count, shown))) q = fs w q"
proof -
  let ?w0 = "emit (EvDownloading rip) (cmd (SIZE rip) w)"
  have g: "fs (snd (stability_gate s rip fa f ?w0)) = fs w"
    by (simp add: stability_gate_fs) (simp add: emit_def cmd_def)
  have "fs (snd (download_file s rip lip f (snd (stability_gate s rip fa f ?w0)))) q = fs w q"
    using download_file_frame [OF assms] g by simp
  then show ?thesis
    using g
    by (simp add: process_file_def Let_def split_beta cmd_def emit_def delete_remote_def)
qed

text \<open>
  The cases of \<open>process_file\<close>: the file is passed over as already downloaded, or it is
  held back by the gate, or \<open>download_file\<close> runs from a state with the same local files,
  stop request and listing flag.
\<close>

lemma process_file_cases:
  obtains (skipped) "already_downloaded (fs w) lip (size_reply f 0)"
      and "fs (fst (process_file s limit rip lip fa f (w, count, shown))) = fs w"
      and "stop_event (fst (process_file s limit rip lip fa f (w, count, shown))) = stop_event w"
      and "mlsd_supported (fst (process_file s limit rip lip fa f (w, count, shown))) = mlsd_supported w"
      and "fst (snd (process_file s limit rip lip fa f (w, count, shown))) = count"
    | (held) "\<not> already_downloaded (fs w) lip (size_reply f 0)"
      and "\<not> fst (stability_gate s rip fa f (emit (EvDownloading rip) (cmd (SIZE rip) w)))"
      and "fs (fst (process_file s limit rip lip fa f (w, count, shown))) = fs w"
      and "stop_event (fst (process_file s limit rip lip fa f (w, count, shown))) = stop_event w"
      and "mlsd_supported (fst (process_file s limit rip lip fa f (w, count, shown))) = mlsd_supported w"
      and "fst (snd (process_file s limit rip lip fa f (w, count, shown))) = count"
    | (download) w2 where "\<not> already_downloaded (fs w) lip (size_reply f 0)"
      and "fs w2 = fs w" and "stop_event w2 = stop_event w" and "mlsd_supported w2 = mlsd_supported w"
      and "fst (process_file s limit rip lip fa f (w, count, shown)) = snd (download_file s rip lip f w2)"
      and "fst (snd (process_file s limit rip lip fa f (w, count, shown))) =
             (if fst (download_file s rip lip f w2) then Suc count else count)"
proof (cases "already_downloaded (fs w) lip (size_reply f 0)")
  case True
  then show ?thesis
    by (intro skipped) (simp_all add: process_file_def Let_def cmd_def emit_def delete_remote_def)
next
  case False
  let ?w0 = "emit (EvDownloading rip) (cmd (SIZE rip) w)"
  let ?w2 = "snd (stability_gate s rip fa f ?w0)"
  have w2: "fs ?w2 = fs w" "stop_event ?w2 = stop_event w" "mlsd_supported ?w2 = mlsd_supported w"
    by (simp_all add: stability_gate_fs stability_gate_stop_event stability_gate_mlsd_supported)
       (simp_all add: emit_def cmd_def)
  show ?thesis
  proof (cases "fst (stability_gate s rip fa f ?w0)")
    case gate: False
    show ?thesis
      using False gate w2
      by (intro held) (simp_all add: process_file_def Let_def split_beta cmd_def)
  next
    case gate: True
    show ?thesis
      using False gate w2
      by (intro download [of ?w2]) (simp_all add: process_file_def Let_def split_beta cmd_def)
  qed
qed

lemma process_file_grows:
  "grows w (fst (process_file s limit rip lip fa f (w, count, shown)))"
proof (cases rule: process_file_cases [of w lip f s limit rip fa count shown])
  case skipped
  then show ?thesis by (simp add: grows_def)
next
  case held
  then show ?thesis by (simp add: grows_def)
next
  case (download w2)
  have "grows w2 (snd (download_file s rip lip f w2))" by (rule download_file_grows)
  then show ?thesis using download by (simp add: grows_def)
qed

lemma process_file_count:
  "fst (snd (process_file s limit rip lip fa f (w, count, shown))) \<le> Suc count"
  by (cases rule: process_file_cases [of w lip f s limit rip fa count shown]) simp_all

lemma process_file_never:
  assumes "retr_raises f"
  shows "fst (snd (process_file s limit rip lip fa f (w, count, shown))) = count"
proof (cases rule: process_file_cases [of w lip f s limit rip fa count shown])
  case (download w2)
  then show ?thesis using download_file_done(2) [of s rip lip f w2] assms by auto
qed simp_all

lemma matching_file:
  assumes "truthful f"
  shows "already_downloaded (fs w) lip (size_reply f 0) \<longleftrightarrow>
         (\<exists>c. fs w lip = Some (LFile c) \<and> length c = length (concat (chunks f))) \<or>
         (fs w lip = Some LDir \<and> int (length (concat (chunks f))) = 4096)"
proof -
  have "size_reply f 0 = Some (int (length (concat (chunks f))))"
    using assms by (simp add: truthful_def)
  then show ?thesis
    by (auto simp: already_downloaded_def os_path_exists_def os_path_getsize_def
          split: option.splits lnode.splits)
qed

lemma process_file_settles:
  assumes "fsize fa = NoFact \<or> fsize fa = size_fact f"
  shows "file_settled s (fst (process_file s limit rip lip fa f (w, count, shown))) lip f"
proof (cases "truthful f")
  case False
  then show ?thesis by (simp add: file_settled_def)
next
  case True
  show ?thesis
  proof (cases rule: process_file_cases [of w lip f s limit rip fa count shown])
    case skipped
    then show ?thesis using matching_file [OF True, of w lip] by (auto simp: file_settled_def)
  next
    case held
    then show ?thesis using truthful_gate [OF True assms] by simp
  next
    case (download w2)
    show ?thesis
    proof (cases "fst (download_file s rip lip f w2)")
      case ok: True
      then show ?thesis
        using download(5) download_file_done(6) [OF ok] by (simp add: file_settled_def)
    next
      case failed: False
      then show ?thesis
        using download(5) download_file_failed [OF failed] by (auto simp: file_settled_def)
    qed
  qed
qed

lemma process_file_settled:
  assumes "truthful f" and "file_settled s w lip f"
  shows "fst (snd (process_file s limit rip lip fa f (w, count, shown))) = count"
proof (cases rule: process_file_cases [of w lip f s limit rip fa count shown])
  case (download w2)
  have "\<not> fst (download_file s rip lip f w2)"
  proof
    assume ok: "fst (download_file s rip lip f w2)"
    note d = download_file_done [OF ok]
    have "\<not> (stop_event w \<and> chunks f \<noteq> [])"
    proof
      assume a: "stop_event w \<and> chunks f \<noteq> []"
      then have "stop_is_set w2 f 0" using download(3) by (simp add: stop_is_set_def)
      then show False using retrbinary_stopped [of "stop_is_set w2 f" 0 "chunks f" "[]"] a d(3) by simp
    qed
    moreover have "\<not> (\<exists>c. fs w lip = Some (LFile c) \<and> length c = length (concat (chunks f)))"
      using download(1) matching_file [OF assms(1), of w lip] by simp
    ultimately show False
      using assms(1,2) d(1,2,4,5) download(2) by (auto simp: file_settled_def)
  qed
  then show ?thesis using download by simp
qed simp_all

subsection \<open>Settled trees in later states\<close>

lemma settled_later:
  assumes "plain_name n" and "named_tree node" and "grows w w'"
    and "\<forall>q\<in>under (os_path_join lp n). fs w' q = fs w q"
    and "settled s w (os_path_join lp n) node"
  shows "settled s w' (os_path_join lp n) node"
  using assms
proof (induction node arbitrary: lp n)
  case (RFile rf)
  then show ?case by (auto simp: file_settled_def under_def grows_def)
next
  case (RDir d cs)
  show ?case
  proof (cases "never_listed w d")
    case True
    then have "never_listed w' d" using RDir.prems(3) by (auto simp: never_listed_def grows_def)
    then show ?thesis by simp
  next
    case False
    have "settled s w' (os_path_join (os_path_join lp n) (fst e)) (snd e)"
      if e: "e \<in> set cs" and nd: "fst e \<noteq> ''.'' \<and> fst e \<noteq> ''..''" for e
    proof (rule RDir.IH [OF e])
      show "snd e \<in> Basic_BNFs.snds e" by (cases e) simp
      show m: "plain_name (fst e)" using RDir.prems(2) e by (simp add: separate_names_def)
      show "named_tree (snd e)" using RDir.prems(2) e by simp
      show "grows w w'" by (rule RDir.prems(3))
      show "\<forall>q\<in>under (os_path_join (os_path_join lp n) (fst e)). fs w' q = fs w q"
        using under_nested [OF RDir.prems(1) m, of lp] RDir.prems(4) by blast
      show "settled s w (os_path_join (os_path_join lp n) (fst e)) (snd e)"
        using RDir.prems(5) False e nd by auto
    qed
    then show ?thesis by simp
  qed
qed

subsection \<open>The items of a listing\<close>

lemma separate_names_filter:
  "separate_names (map fst cs) \<Longrightarrow> separate_names (map fst (filter P cs))"
proof -
  assume a: "separate_names (map fst cs)"
  have "set (map fst (filter P cs)) \<subseteq> set (map fst cs)" by auto
  moreover have "distinct (map fst (filter P cs))"
    using a by (simp add: separate_names_def distinct_map_filter)
  ultimately show ?thesis
    using a unfolding separate_names_def by blast
qed

lemma mlsd_items:
  "map entry_of (map mlsd_item cs) = cs"
  "\<forall>i\<in>set (map mlsd_item cs).
      ftype (fst (snd i)) = kind (snd (snd i)) \<and>
      (fsize (fst (snd i)) = NoFact \<or> fsize (fst (snd i)) = size_fact (as_file (snd (snd i))))"
proof -
  have a: "entry_of (mlsd_item e) = e" for e
    by (cases e; cases "snd e") (auto simp: entry_of_def)
  show "map entry_of (map mlsd_item cs) = cs" by (simp add: a comp_def)
  have "ftype (fst (snd (mlsd_item e))) = kind (snd (snd (mlsd_item e))) \<and>
        (fsize (fst (snd (mlsd_item e))) = NoFact \<or>
         fsize (fst (snd (mlsd_item e))) = size_fact (as_file (snd (snd (mlsd_item e)))))" for e
    by (cases e; cases "snd e") auto
  then show "\<forall>i\<in>set (map mlsd_item cs).
      ftype (fst (snd i)) = kind (snd (snd i)) \<and>
      (fsize (fst (snd i)) = NoFact \<or> fsize (fst (snd i)) = size_fact (as_file (snd (snd i))))"
    by auto
qed

lemma nlst_items:
  "map entry_of (fst (nlst_probe cs w)) = filter not_dots cs \<and>
   (\<forall>i\<in>set (fst (nlst_probe cs w)).
      (ftype (fst (snd i)) = kind (snd (snd i)) \<or>
       (ftype (fst (snd i)) = TFile \<and> \<not> cwd_succeeds (snd (snd i)))) \<and>
      fsize (fst (snd i)) = NoFact)"
proof (induction cs arbitrary: w)
  case Nil
  then show ?case by simp
next
  case (Cons e cs)
  obtain name node where e: "e = (name, node)" by (cases e)
  have k: "cwd_succeeds node \<Longrightarrow> kind node = TDir"
    by (cases node) simp_all
  show ?case
    using Cons.IH k by (auto simp: e split_beta entry_of_def not_dots_def)
qed

lemma list_directory_items:
  assumes "separate_names (map fst cs)" and "\<forall>e\<in>set cs. named_tree (snd e)"
  shows "good_items (fst (list_directory d cs w))"
    and "map entry_of (fst (list_directory d cs w)) = cs \<or>
         map entry_of (fst (list_directory d cs w)) = filter not_dots cs \<or>
         fst (list_directory d cs w) = []"
    and "nlst_ok d \<or> (mlsd_supported w \<noteq> Some False \<and> mlsd_reply d = MlsdEntries) \<Longrightarrow>
         set (filter not_dots cs) \<subseteq> entry_of ` set (fst (list_directory d cs w))"
    and "\<not> nlst_ok d \<and> (mlsd_supported w = Some False \<or> mlsd_reply d \<noteq> MlsdEntries) \<Longrightarrow>
         fst (list_directory d cs w) = []"
proof -
  let ?m = "fst (try_mlsd d cs w)"
  let ?n = "fst (nlst_probe cs (cmd NLST (snd (try_mlsd d cs w))))"
  let ?items = "fst (list_directory d cs w)"
  have m: "?m = (if mlsd_supported w \<noteq> Some False \<and> mlsd_reply d = MlsdEntries
                 then map mlsd_item cs else [])"
    by (cases "mlsd_supported w") (auto simp: try_mlsd_def split: mlsd_reply.splits)
  have ld: "?items = (if ?m = [] then (if nlst_ok d then ?n else []) else ?m)"
    by (simp add: list_directory_def split_beta)
  have en: "map entry_of ?n = filter not_dots cs"
    using nlst_items [of cs "cmd NLST (snd (try_mlsd d cs w))"] by simp
  have shape: "map entry_of ?items = cs \<or> map entry_of ?items = filter not_dots cs \<or> ?items = []"
    using mlsd_items(1) [of cs] en by (auto simp: ld m)
  show "map entry_of ?items = cs \<or> map entry_of ?items = filter not_dots cs \<or> ?items = []"
    by (rule shape)
  have names: "map fst items = map fst (map entry_of items)" for items :: "item list"
    by (simp add: entry_of_def comp_def)
  have sep: "separate_names (map fst ?items)"
  proof -
    consider (a) "map entry_of ?items = cs" | (b) "map entry_of ?items = filter not_dots cs"
      | (c) "?items = []"
      using shape by blast
    then show ?thesis
    proof cases
      case a
      then show ?thesis using names [of ?items] assms(1) by simp
    next
      case b
      then show ?thesis
        using names [of ?items] separate_names_filter [OF assms(1), of not_dots] by simp
    next
      case c
      then show ?thesis by (simp add: separate_names_def)
    qed
  qed
  have nodes: "named_tree (snd (snd i))" if "i \<in> set ?items" for i
  proof -
    have "entry_of i \<in> set (map entry_of ?items)" using that by simp
    moreover have "set (map entry_of ?items) \<subseteq> set cs"
    proof -
      consider (a) "map entry_of ?items = cs" | (b) "map entry_of ?items = filter not_dots cs"
        | (c) "?items = []"
        using shape by blast
      then show ?thesis
      proof cases
        case a
        then show ?thesis by (metis subset_refl)
      next
        case b
        then show ?thesis by (metis filter_is_subset)
      next
        case c
        then show ?thesis by simp
      qed
    qed
    ultimately have "entry_of i \<in> set cs" by blast
    then show ?thesis using assms(2) by (auto simp: entry_of_def)
  qed
  have typed: "\<forall>i\<in>set ?items.
      (ftype (fst (snd i)) = kind (snd (snd i)) \<or>
       (ftype (fst (snd i)) = TFile \<and> \<not> cwd_succeeds (snd (snd i)))) \<and>
      (fsize (fst (snd i)) = NoFact \<or> fsize (fst (snd i)) = size_fact (as_file (snd (snd i))))"
  proof -
    have "?items = map mlsd_item cs \<or> ?items = ?n \<or> ?items = []"
    proof (cases "?m = []")
      case True
      then show ?thesis by (simp add: ld)
    next
      case False
      then have "?m = map mlsd_item cs" using m by metis
      then show ?thesis using False by (simp add: ld)
    qed
    then consider (a) "?items = map mlsd_item cs" | (b) "?items = ?n" | (c) "?items = []"
      by blast
    then show ?thesis
    proof cases
      case a
      show ?thesis unfolding a using mlsd_items(2) [of cs] by blast
    next
      case b
      show ?thesis unfolding b
        using nlst_items [of cs "cmd NLST (snd (try_mlsd d cs w))"] by blast
    next
      case c
      show ?thesis unfolding c by simp
    qed
  qed
  show "good_items ?items"
    unfolding good_items_def using sep nodes typed by blast
  show "set (filter not_dots cs) \<subseteq> entry_of ` set ?items"
    if "nlst_ok d \<or> (mlsd_supported w \<noteq> Some False \<and> mlsd_reply d = MlsdEntries)"
  proof -
    have a: "set (filter not_dots cs) \<subseteq> entry_of ` set (map mlsd_item cs)"
      using mlsd_items(1) [of cs] by (metis filter_is_subset list.set_map)
    have b: "set (filter not_dots cs) \<subseteq> entry_of ` set ?n"
      using en by (metis list.set_map subset_refl)
    show ?thesis using that a b by (auto simp: ld m)
  qed
  show "?items = []"
    if "\<not> nlst_ok d \<and> (mlsd_supported w = Some False \<or> mlsd_reply d \<noteq> MlsdEntries)"
    using that by (auto simp: ld m)
qed

lemma list_directory_state:
  "fs (snd (list_directory d cs w)) = fs w"
  "stop_event (snd (list_directory d cs w)) = stop_event w"
  "grows w (snd (list_directory d cs w))"
proof -
  have t: "fs (snd (try_mlsd d cs w)) = fs w" "stop_event (snd (try_mlsd d cs w)) = stop_event w"
    by (auto simp: try_mlsd_def cmd_def emit_def split: mlsd_reply.splits)
  obtain cs' where "snd (nlst_probe cs (cmd NLST (snd (try_mlsd d cs w)))) =
      (cmd NLST (snd (try_mlsd d cs w)))\<lparr>ftp_cmds := ftp_cmds (cmd NLST (snd (try_mlsd d cs w))) @ cs'\<rparr>"
    using nlst_probe_state by blast
  then have n: "fs (snd (nlst_probe cs (cmd NLST (snd (try_mlsd d cs w))))) = fs w"
    "stop_event (snd (nlst_probe cs (cmd NLST (snd (try_mlsd d cs w))))) = stop_event w"
    using t by (simp_all add: cmd_def)
  show "fs (snd (list_directory d cs w)) = fs w"
    and s: "stop_event (snd (list_directory d cs w)) = stop_event w"
    using t n by (simp_all add: list_directory_def split_beta cmd_def emit_def)
  show "grows w (snd (list_directory d cs w))"
    using s kept_list_directory [of w d cs] by (simp add: grows_def kept_def)
qed

subsection \<open>Handling the items of a directory\<close>

lemma under_length: "q \<in> under x \<Longrightarrow> length x \<le> length q"
  by (auto simp: under_def)

lemma parent_not_under:
  assumes "plain_name n"
  shows "lp \<notin> under (os_path_join lp n)"
proof
  assume "lp \<in> under (os_path_join lp n)"
  then have "length (os_path_join lp n) \<le> length lp" by (rule under_length)
  moreover have "length lp < length (os_path_join lp n)"
    using assms by (simp add: join_plain plain_name_def)
  ultimately show False by simp
qed

lemma dir_area_under:
  assumes "plain_name n" and "named_tree node"
  shows "dir_area (os_path_join lp n) node \<subseteq> under (os_path_join lp n)"
proof (cases node)
  case (RFile f)
  then show ?thesis by simp
next
  case (RDir d cs)
  have "under (os_path_join (os_path_join lp n) (fst e)) \<subseteq> under (os_path_join lp n)"
    if "e \<in> set cs" for e
    using that assms(2) RDir under_nested [OF assms(1), of "fst e" lp]
    by (simp add: separate_names_def)
  then show ?thesis using RDir under_self(1) [of "os_path_join lp n"] by auto
qed

lemma kind_not_other: "kind node \<noteq> TOther"
  by (cases node) simp_all

lemma good_items_Cons:
  assumes "good_items (i # rest)"
  shows "good_items rest" and "plain_name (fst i)" and "named_tree (snd (snd i))"
    and "ftype (fst (snd i)) = kind (snd (snd i)) \<or>
         (ftype (fst (snd i)) = TFile \<and> \<not> cwd_succeeds (snd (snd i)))"
    and "fsize (fst (snd i)) = NoFact \<or> fsize (fst (snd i)) = size_fact (as_file (snd (snd i)))"
    and "\<forall>j\<in>set rest. plain_name (fst j) \<and> named_tree (snd (snd j)) \<and>
           under (os_path_join lp (fst i)) \<inter> under (os_path_join lp (fst j)) = {}"
proof -
  have sep: "separate_names (fst i # map fst rest)"
    using assms by (simp add: good_items_def)
  show "good_items rest"
    using assms by (auto simp: good_items_def separate_names_def)
  show pi: "plain_name (fst i)" using sep by (simp add: separate_names_def)
  show "named_tree (snd (snd i))"
    "ftype (fst (snd i)) = kind (snd (snd i)) \<or>
         (ftype (fst (snd i)) = TFile \<and> \<not> cwd_succeeds (snd (snd i)))"
    "fsize (fst (snd i)) = NoFact \<or> fsize (fst (snd i)) = size_fact (as_file (snd (snd i)))"
    using assms by (simp_all add: good_items_def)
  show "\<forall>j\<in>set rest. plain_name (fst j) \<and> named_tree (snd (snd j)) \<and>
           under (os_path_join lp (fst i)) \<inter> under (os_path_join lp (fst j)) = {}"
  proof
    fix j
    assume j: "j \<in> set rest"
    then have m: "fst j \<in> set (map fst rest)" by simp
    have pj: "plain_name (fst j)" using sep j by (auto simp: separate_names_def)
    have "fst i \<notin> set (map fst rest)" using sep by (simp add: separate_names_def)
    then have ne: "fst i \<noteq> fst j" using m by metis
    have p1: "fst i \<noteq> fst j @ ''.part''" and p2: "fst j \<noteq> fst i @ ''.part''"
      using sep j by (auto simp: separate_names_def)
    have "named_tree (snd (snd j))" using assms j by (simp add: good_items_def)
    then show "plain_name (fst j) \<and> named_tree (snd (snd j)) \<and>
           under (os_path_join lp (fst i)) \<inter> under (os_path_join lp (fst j)) = {}"
      using pj under_disjoint [OF pi pj ne p1 p2] by simp
  qed
qed

lemma pass_Nil: "pass s lp [] w c w c"
  by (simp add: pass_def)

lemma pass_Cons:
  assumes good: "good_items (i # rest)"
    and head: "pass s lp [i] w c w1 c1"
    and tail: "pass s lp rest w1 c1 w' c'"
  shows "pass s lp (i # rest) w c w' c'"
proof -
  note g = good_items_Cons [OF good]
  have g1: "grows w w1" and g2: "grows w1 w'"
    using head tail by (simp_all add: pass_def)
  have same_head: "\<forall>q\<in>under (os_path_join lp (fst i)). fs w' q = fs w1 q"
    using tail g(6) unfolding pass_def by blast
  have same_rest: "\<forall>q\<in>under (os_path_join lp (fst j)). fs w1 q = fs w q" if "j \<in> set rest" for j
    using head g(6) that unfolding pass_def by auto
  have 1: "grows w w'" by (rule grows_trans [OF g1 g2])
  have 2: "\<forall>q. (\<forall>j\<in>set (i # rest). q \<notin> under (os_path_join lp (fst j))) \<longrightarrow> fs w' q = fs w q"
    using head tail unfolding pass_def by simp
  have 3: "\<forall>j\<in>set (i # rest). not_dots (entry_of j) \<longrightarrow>
        settled s w' (os_path_join lp (fst j)) (snd (snd j))"
  proof -
    have "settled s w' (os_path_join lp (fst i)) (snd (snd i))" if "not_dots (entry_of i)"
      using head that settled_later [OF g(2,3) g2 same_head] by (simp add: pass_def)
    then show ?thesis using tail by (simp add: pass_def)
  qed
  have 4: "c' \<le> c + sum_list (map (\<lambda>i. untruthful_files (snd (snd i))) (i # rest))"
    if all: "\<forall>j\<in>set (i # rest). not_dots (entry_of j) \<longrightarrow>
         settled s w (os_path_join lp (fst j)) (snd (snd j))"
  proof -
    have a: "c1 \<le> c + untruthful_files (snd (snd i))" using head all by (simp add: pass_def)
    have "settled s w1 (os_path_join lp (fst j)) (snd (snd j))"
      if j: "j \<in> set rest" and nd: "not_dots (entry_of j)" for j
    proof -
      have "plain_name (fst j)" "named_tree (snd (snd j))" using g(6) j by simp_all
      from settled_later [OF this g1 same_rest [OF j]] all j nd show ?thesis by simp
    qed
    then have "c' \<le> c1 + sum_list (map (\<lambda>i. untruthful_files (snd (snd i))) rest)"
      using tail by (simp add: pass_def)
    then show ?thesis using a by simp
  qed
  show ?thesis unfolding pass_def using 1 2 3 4 by blast
qed

lemma pass_dots:
  assumes "\<not> not_dots (entry_of i)"
  shows "pass s lp [i] w c w c"
  using assms by (simp add: pass_def)

lemma pass_file:
  assumes "plain_name n" and "n \<noteq> ''.'' \<and> n \<noteq> ''..''" and "ftype fa = TFile"
    and "ftype fa = kind node \<or> (ftype fa = TFile \<and> \<not> cwd_succeeds node)"
    and "fsize fa = NoFact \<or> fsize fa = size_fact (as_file node)"
  shows "pass s lp [(n, fa, node)] w c
           (fst (process_file s limit rip (os_path_join lp n) fa (as_file node) (w, c, sh)))
           (fst (snd (process_file s limit rip (os_path_join lp n) fa (as_file node) (w, c, sh))))"
proof -
  let ?lip = "os_path_join lp n"
  let ?r = "process_file s limit rip ?lip fa (as_file node) (w, c, sh)"
  have 1: "grows w (fst ?r)" by (rule process_file_grows)
  have 2: "fs (fst ?r) q = fs w q" if "q \<notin> under ?lip" for q
    using that by (intro process_file_frame) (auto simp: under_def)
  have 3: "settled s (fst ?r) ?lip node"
  proof (cases node)
    case (RFile f)
    then show ?thesis using process_file_settles [OF assms(5), of s limit rip ?lip w c sh] by simp
  next
    case (RDir d cs)
    then have "\<not> cwd_ok d" using assms(3,4) by auto
    then show ?thesis using RDir by (simp add: never_listed_def)
  qed
  have 4: "fst (snd ?r) \<le> c + untruthful_files node" if st: "settled s w ?lip node"
  proof (cases node)
    case (RFile f)
    show ?thesis
    proof (cases "truthful f")
      case True
      have "file_settled s w ?lip f" using st RFile by simp
      from process_file_settled [OF True this, of limit rip fa c sh] show ?thesis
        using RFile by simp
    next
      case False
      then show ?thesis
        using RFile process_file_count [of s limit rip ?lip fa f w c sh] by simp
    qed
  next
    case (RDir d cs)
    have "retr_raises (as_file node)" using RDir by (simp add: no_file_def)
    from process_file_never [OF this, of s limit rip ?lip fa w c sh] show ?thesis by simp
  qed
  show ?thesis
    using 1 2 3 4 assms(2) by (simp add: pass_def not_dots_def entry_of_def)
qed

lemma pass_dir:
  assumes "plain_name n" and "named_tree node" and "kind node = TDir"
    and "skip_log_limit s \<noteq> None" and "dir_pass s (os_path_join lp n) node w w1 c"
    and "n \<noteq> ''.'' \<and> n \<noteq> ''..''"
  shows "pass s lp [(n, fa, node)] w count w1 (count + c)"
proof -
  have "fs w1 q = fs w q" if "q \<notin> under (os_path_join lp n)" for q
    using that assms(5) dir_area_under [OF assms(1,2), of lp] by (auto simp: dir_pass_def)
  then show ?thesis
    using assms(3,4,5,6) by (simp add: pass_def dir_pass_def not_dots_def entry_of_def)
qed

lemma untruthful_items:
  assumes "map entry_of items = cs \<or> map entry_of items = filter P cs \<or> items = []"
  shows "sum_list (map (\<lambda>i. untruthful_files (snd (snd i))) items)
         \<le> sum_list (map (\<lambda>e. untruthful_files (snd e)) cs)"
proof -
  have eq: "sum_list (map (\<lambda>i. untruthful_files (snd (snd i))) items)
            = sum_list (map (\<lambda>e. untruthful_files (snd e)) (map entry_of items))"
    by (simp add: comp_def entry_of_def)
  have le: "sum_list (map f (filter P xs)) \<le> sum_list (map f xs)" for f :: "string \<times> rnode \<Rightarrow> nat" and xs
    by (induction xs) auto
  consider (a) "map entry_of items = cs" | (b) "map entry_of items = filter P cs" | (c) "items = []"
    using assms by blast
  then show ?thesis
  proof cases
    case a
    then show ?thesis using eq by simp
  next
    case b
    then show ?thesis using eq le [of "\<lambda>e. untruthful_files (snd e)" cs] by simp
  next
    case c
    then show ?thesis by simp
  qed
qed

subsection \<open>The traversal of a tree\<close>

lemma traversal_pass:
  "named_tree node \<Longrightarrow>
     dir_pass s lp node w (fst (download_dir_recursive s rp lp node w))
       (snd (download_dir_recursive s rp lp node w))"
  "good_items items \<Longrightarrow> skip_log_limit s = Some limit \<Longrightarrow>
     pass s lp items (fst acc) (fst (snd acc))
       (fst (process_items s rp lp limit items acc))
       (fst (snd (process_items s rp lp limit items acc)))"
proof (induction s rp lp node w and s rp lp limit items acc
       rule: download_dir_recursive_process_items.induct)
  case (1 s rp lp f w)
  then show ?case by (simp add: dir_pass_def grows_def emit_def cmd_def)
next
  case (2 s rp lp d cs w)
  let ?w2 = "if \<not> os_path_exists (fs w) lp
             then (cmd (CWD rp) w)\<lparr>fs := os_makedirs (fs w) lp\<rparr> else cmd (CWD rp) w"
  have st: "separate_names (map fst cs)" "\<forall>e\<in>set cs. named_tree (snd e)"
    using "2.prems"(1) by simp_all
  show ?case
  proof (cases "cwd_ok d")
    case False
    then show ?thesis
      by (simp add: dir_pass_def grows_def emit_def cmd_def never_listed_def)
  next
    case True
    obtain items w3 where ld: "list_directory d cs ?w2 = (items, w3)"
      by (cases "list_directory d cs ?w2")
    have fs2: "\<forall>q. q \<noteq> lp \<longrightarrow> fs ?w2 q = fs w q"
      by (simp add: cmd_def os_makedirs_def)
    have flag2: "mlsd_supported ?w2 = mlsd_supported w" by (simp add: cmd_def)
    have g2: "grows w ?w2" by (simp add: grows_def cmd_def)
    have w3: "fs w3 = fs ?w2" "grows ?w2 w3"
      using list_directory_state [where d = d and cs = cs and w = ?w2] ld by simp_all
    have g3: "grows w w3" by (rule grows_trans [OF g2 w3(2)])
    note li = list_directory_items [OF st, where d = d and w = ?w2]
    have good: "good_items items" using li(1) ld by simp
    have shape: "map entry_of items = cs \<or> map entry_of items = filter not_dots cs \<or> items = []"
      using li(2) ld by simp
    have inside: "entry_of i \<in> set cs" if "i \<in> set items" for i
    proof -
      have "entry_of i \<in> set (map entry_of items)" using that by simp
      moreover have "set (map entry_of items) \<subseteq> set cs"
      proof -
        consider (a) "map entry_of items = cs" | (b) "map entry_of items = filter not_dots cs"
          | (c) "items = []"
          using shape by blast
        then show ?thesis
        proof cases
          case a
          then show ?thesis by (metis subset_refl)
        next
          case b
          then show ?thesis by (metis filter_is_subset)
        next
          case c
          then show ?thesis by simp
        qed
      qed
      ultimately show ?thesis by blast
    qed
    show ?thesis
    proof (cases "skip_log_limit s")
      case None
      have "download_dir_recursive s rp lp (RDir d cs) w = (emit (EvProcessDirError rp) w3, 0)"
        using True ld None by simp
      moreover have "grows w (emit (EvProcessDirError rp) w3)"
        using g3 by (simp add: grows_def emit_def)
      ultimately show ?thesis
        using w3(1) fs2 None by (simp add: dir_pass_def emit_def)
    next
      case (Some limit)
      obtain w4 count shown where pi: "process_items s rp lp limit items (w3, 0, 0) = (w4, count, shown)"
        by (cases "process_items s rp lp limit items (w3, 0, 0)")
      have res: "download_dir_recursive s rp lp (RDir d cs) w = (w4, count)"
        using True ld Some pi by simp
      have p: "pass s lp items w3 0 w4 count"
        using "2.IH" [OF _ ld [symmetric] Some good Some] True pi by simp
      have g4: "grows w3 w4" using p by (simp add: pass_def)
      have 1: "grows w w4" by (rule grows_trans [OF g3 g4])
      have 2: "fs w4 q = fs w q" if "q \<notin> dir_area lp (RDir d cs)" for q
      proof -
        have "q \<notin> under (os_path_join lp (fst i))" if "i \<in> set items" for i
          using inside [OF that] \<open>q \<notin> dir_area lp (RDir d cs)\<close> by (auto simp: entry_of_def)
        then have "fs w4 q = fs w3 q" using p by (simp add: pass_def)
        then show ?thesis using that w3(1) fs2 by simp
      qed
      have 3: "settled s w4 lp (RDir d cs)"
      proof (cases "nlst_ok d \<or> (mlsd_supported ?w2 \<noteq> Some False \<and> mlsd_reply d = MlsdEntries)")
        case alive: True
        have cover: "set (filter not_dots cs) \<subseteq> entry_of ` set items"
          using li(3) [OF alive] ld by simp
        have "settled s w4 (os_path_join lp (fst e)) (snd e)"
          if "e \<in> set cs" "fst e \<noteq> ''.'' \<and> fst e \<noteq> ''..''" for e
        proof -
          have "e \<in> set (filter not_dots cs)" using that by (simp add: not_dots_def)
          then obtain i where "i \<in> set items" "entry_of i = e" using cover by auto
          then show ?thesis using p that(2) by (auto simp: pass_def entry_of_def not_dots_def)
        qed
        then show ?thesis by simp
      next
        case dead: False
        then have "never_listed ?w2 d" by (auto simp: never_listed_def)
        then have "never_listed w4 d"
          using grows_trans [OF w3(2) g4] by (auto simp: never_listed_def grows_def)
        then show ?thesis by simp
      qed
      have 4: "count \<le> untruthful_files (RDir d cs)" if all: "settled s w lp (RDir d cs)"
      proof (cases "never_listed w d")
        case nl: True
        then have "\<not> nlst_ok d \<and> (mlsd_supported ?w2 = Some False \<or> mlsd_reply d \<noteq> MlsdEntries)"
          using True flag2 by (auto simp: never_listed_def)
        then have "items = []" using li(4) ld by simp
        then show ?thesis using pi by simp
      next
        case listed: False
        have "settled s w3 (os_path_join lp (fst i)) (snd (snd i))"
          if i: "i \<in> set items" and nd: "not_dots (entry_of i)" for i
        proof -
          have e: "entry_of i \<in> set cs" by (rule inside [OF i])
          have pn: "plain_name (fst i)"
            using e st(1) by (auto simp: separate_names_def entry_of_def)
          have sn: "named_tree (snd (snd i))" using e st(2) by (auto simp: entry_of_def)
          have a: "settled s w (os_path_join lp (fst i)) (snd (snd i))"
            using all listed e nd by (auto simp: entry_of_def not_dots_def)
          have b: "\<forall>q\<in>under (os_path_join lp (fst i)). fs w3 q = fs w q"
            using parent_not_under [OF pn, of lp] fs2 w3(1) by auto
          show ?thesis by (rule settled_later [OF pn sn g3 b a])
        qed
        then have "count \<le> 0 + sum_list (map (\<lambda>i. untruthful_files (snd (snd i))) items)"
          using p by (simp add: pass_def)
        then show ?thesis using untruthful_items [OF shape] by simp
      qed
      show ?thesis
        unfolding res dir_pass_def using 1 2 3 4 by simp
    qed
  qed
next
  case (3 s rp lp limit acc)
  then show ?case by (simp add: pass_Nil)
next
  case (4 s rp lp limit name fa node rest w count skip_logs_shown)
  let ?i = "(name, fa, node)"
  note g = good_items_Cons [OF "4.prems"(1)]
  have lim: "skip_log_limit s \<noteq> None" using "4.prems"(2) by simp
  show ?case
  proof (cases "name = ''.'' \<or> name = ''..''")
    case True
    have head: "pass s lp [?i] w count w count"
      using True by (intro pass_dots) (auto simp: not_dots_def entry_of_def)
    have tail: "pass s lp rest w count
        (fst (process_items s rp lp limit rest (w, count, skip_logs_shown)))
        (fst (snd (process_items s rp lp limit rest (w, count, skip_logs_shown))))"
      using "4.IH"(1) [OF True g(1) "4.prems"(2)] by simp
    show ?thesis
      using pass_Cons [OF "4.prems"(1) head tail] True by simp
  next
    case False
    show ?thesis
    proof (cases "ftype fa")
      case TDir
      let ?lip = "os_path_join lp name"
      obtain w1 c where r: "download_dir_recursive s (remote_item_path rp name) ?lip node w = (w1, c)"
        by (cases "download_dir_recursive s (remote_item_path rp name) ?lip node w")
      have k: "kind node = TDir" using g(4) TDir by simp
      have dp: "dir_pass s ?lip node w w1 c"
        using "4.IH"(2) [OF False TDir] g(3) r by simp
      have head: "pass s lp [?i] w count w1 (count + c)"
        using pass_dir [OF _ _ k lim dp] g(2,3) False by simp
      have tail: "pass s lp rest w1 (count + c)
          (fst (process_items s rp lp limit rest (w1, count + c, skip_logs_shown)))
          (fst (snd (process_items s rp lp limit rest (w1, count + c, skip_logs_shown))))"
        using "4.IH"(3) [OF False TDir r [symmetric] g(1) "4.prems"(2)] by simp
      show ?thesis
        using pass_Cons [OF "4.prems"(1) head tail] False TDir r by simp
    next
      case TFile
      let ?lip = "os_path_join lp name"
      let ?acc = "process_file s limit (remote_item_path rp name) ?lip fa (as_file node)
                    (w, count, skip_logs_shown)"
      have head: "pass s lp [?i] w count (fst ?acc) (fst (snd ?acc))"
        using pass_file [where n = name and node = node and fa = fa and s = s and w = w and lp = lp
            and c = count and limit = limit and rip = "remote_item_path rp name"
            and sh = skip_logs_shown]
          g(2,4,5) False TFile by simp
      have tail: "pass s lp rest (fst ?acc) (fst (snd ?acc))
          (fst (process_items s rp lp limit rest ?acc))
          (fst (snd (process_items s rp lp limit rest ?acc)))"
        using "4.IH"(4) [OF False TFile g(1) "4.prems"(2)] by simp
      show ?thesis
        using pass_Cons [OF "4.prems"(1) head tail] False TFile by simp
    next
      case TOther
      then show ?thesis using g(4) kind_not_other [of node] by simp
    qed
  qed
qed

subsection \<open>Two traversals of an unchanged tree\<close>

lemma paths_part_tree:
  "remote_item_path ''/data'' ''a.part'' = ''/data/a.part''"
  "os_path_join ''mirror'' ''a.part'' = ''mirror/a.part''"
  "remote_item_path ''/data'' ''m'' = ''/data/m''"
  "os_path_join ''mirror'' ''m'' = ''mirror/m''"
  by (simp_all add: remote_item_path_def os_path_join_def)

lemmas traversal_unfold =
  default_settings_def connected_state_def init_state_def mlsd_dir_def plain_file_def
  list_directory_def try_mlsd_def process_file_def already_downloaded_def
  os_path_exists_def os_path_getsize_def os_makedirs_def cmd_def emit_def Let_def
  stability_gate_def stability_settings_def download_file_def open_wb_def os_replace_def
  stop_is_set_def socket_timeout_def

text \<open>
  C7, as the claim states it, fails: with \<^verbatim>\<open>delete_after_download\<close> off, all sizes known and
  all transfers completing, the first traversal of a directory that lists \<^verbatim>\<open>a.part\<close> before
  \<^verbatim>\<open>a\<close> downloads both, writing \<^verbatim>\<open>a\<close> through the temporary path \<^verbatim>\<open>a.part\<close>, which is the
  destination of the other file; the second traversal of the unchanged tree downloads
  \<^verbatim>\<open>a.part\<close> again.
\<close>

theorem second_traversal_downloads_counterexample:
  "snd (download_dir_recursive default_settings ''/data'' ''mirror'' part_tree
          (connected_state Map.empty)) = 2
   \<and> snd (download_dir_recursive default_settings ''/data'' ''mirror'' part_tree
          (fst (download_dir_recursive default_settings ''/data'' ''mirror'' part_tree
                  (connected_state Map.empty)))) = 1
   \<and> \<not> delete_after_download default_settings"
  by (simp add: part_tree_def paths_part_tree paths_two_dir_tree traversal_unfold)

text \<open>
  A size that can be queried is not enough either: a file whose size query answers a number
  that is not the length of the data delivered is downloaded by every traversal.
\<close>

lemma misreported_size_downloads_again:
  "snd (download_dir_recursive default_settings ''/data'' ''mirror'' misreporting_tree
          (fst (download_dir_recursive default_settings ''/data'' ''mirror'' misreporting_tree
                  (connected_state Map.empty)))) = 1"
  by (simp add: misreporting_tree_def misreporting_file_def paths_part_tree traversal_unfold)

text \<open>
  C7, amended: for every remote tree in which the names of every directory are path
  components, pairwise different and none of them another one followed by \<^verbatim>\<open>.part\<close>: after
  one traversal, a second traversal of the same tree from the state the first one left, with
  \<^verbatim>\<open>delete_after_download\<close> off, downloads no more files than the tree has files whose size
  is not reported truthfully (the size queries and the size of the listing give the length
  of the data delivered); so it downloads no file when every size is. Nothing is assumed of
  the state before the first traversal, of the local files, or of which directories can be
  entered or listed and which transfers complete. With \<^verbatim>\<open>delete_after_download\<close> on the
  remote tree does not stay the same, so the second traversal of the same tree says nothing
  of the program.
\<close>

theorem second_traversal_downloads_nothing:
  assumes "named_tree node" and "\<not> delete_after_download s"
  shows "snd (download_dir_recursive s rp lp node
                (fst (download_dir_recursive s rp lp node w))) \<le> untruthful_files node"
proof (cases node)
  case (RFile f)
  then show ?thesis by simp
next
  case (RDir d cs)
  let ?w1 = "fst (download_dir_recursive s rp lp node w)"
  have first: "dir_pass s lp node w ?w1 (snd (download_dir_recursive s rp lp node w))"
    by (rule traversal_pass(1) [OF assms(1)])
  have second: "dir_pass s lp node ?w1 (fst (download_dir_recursive s rp lp node ?w1))
      (snd (download_dir_recursive s rp lp node ?w1))"
    by (rule traversal_pass(1) [OF assms(1)])
  show ?thesis
  proof (cases "skip_log_limit s")
    case None
    then show ?thesis using RDir by (simp add: split_beta)
  next
    case (Some limit)
    then have "settled s ?w1 lp node" using first RDir by (simp add: dir_pass_def)
    then show ?thesis using second by (simp add: dir_pass_def)
  qed
qed

theorem second_traversal_downloads_nothing_witness:
  "snd (download_dir_recursive default_settings ''/data'' ''mirror'' two_dir_tree
          (connected_state Map.empty)) = 2
   \<and> snd (download_dir_recursive default_settings ''/data'' ''mirror'' two_dir_tree
          (fst (download_dir_recursive default_settings ''/data'' ''mirror'' two_dir_tree
                  (connected_state Map.empty)))) = 0
   \<and> named_tree two_dir_tree \<and> \<not> delete_after_download default_settings"
proof -
  have 1: "named_tree two_dir_tree"
    by (simp add: two_dir_tree_def separate_names_def plain_name_def)
  have 2: "\<not> delete_after_download default_settings" by (simp add: default_settings_def)
  have 3: "untruthful_files two_dir_tree = 0"
    by (simp add: two_dir_tree_def truthful_def plain_file_def)
  have 5: "snd (download_dir_recursive default_settings ''/data'' ''mirror'' two_dir_tree
          (connected_state Map.empty)) = 2"
    by (simp add: two_dir_tree_def paths_two_dir_tree traversal_unfold)
  show ?thesis
    using second_traversal_downloads_nothing [OF 1 2, of "''/data''" "''mirror''"
        "connected_state Map.empty"] 1 2 3 5
    by simp
qed

subsection \<open>The destinations of a traversal\<close>

lemma destinations_under:
  assumes "plain_name n" and "named_tree node"
    and "(q, f) \<in> destinations (os_path_join lp n) node"
  shows "q \<in> under (os_path_join lp n)"
  using assms
proof (induction node arbitrary: lp n)
  case (RFile rf)
  then show ?case by (simp add: under_self)
next
  case (RDir d cs)
  from RDir.prems(3) obtain e where e: "e \<in> set cs"
    and q: "(q, f) \<in> destinations (os_path_join (os_path_join lp n) (fst e)) (snd e)"
    by auto
  have m: "plain_name (fst e)" using RDir.prems(2) e by (simp add: separate_names_def)
  have "snd e \<in> Basic_BNFs.snds e" by (cases e) simp
  from RDir.IH [OF e this m _ q] have "q \<in> under (os_path_join (os_path_join lp n) (fst e))"
    using RDir.prems(2) e by simp
  then show ?case using under_nested [OF RDir.prems(1) m, of lp] by blast
qed

lemma destinations_children:
  assumes "named_tree (RDir d cs)" and "(q, f) \<in> destinations lp (RDir d cs)"
  shows "\<exists>e\<in>set cs. plain_name (fst e) \<and> q \<in> under (os_path_join lp (fst e))"
proof -
  from assms(2) obtain e where e: "e \<in> set cs"
    and q: "(q, f) \<in> destinations (os_path_join lp (fst e)) (snd e)"
    by auto
  have m: "plain_name (fst e)" using assms(1) e by (simp add: separate_names_def)
  have "named_tree (snd e)" using assms(1) e by simp
  from destinations_under [OF m this q] show ?thesis using e m by blast
qed

lemma below_not_part:
  assumes "plain_name n" and "plain_name m" and "q \<in> under (os_path_join (os_path_join lp n) m)"
  shows "q \<noteq> os_path_join lp n" and "q \<noteq> os_path_join lp n @ ''.part''"
  using assms(3) by (auto simp: under_def join_join [OF assms(1,2)])

lemma separate_entries:
  assumes "separate_names (map fst cs)" and "e \<in> set cs" and "e' \<in> set cs" and "e \<noteq> e'"
  shows "under (os_path_join lp (fst e)) \<inter> under (os_path_join lp (fst e')) = {}"
proof -
  have "distinct (map fst cs)" using assms(1) by (simp add: separate_names_def)
  then have "inj_on fst (set cs)" by (simp add: distinct_map)
  then have ne: "fst e \<noteq> fst e'" using assms(2-4) by (auto dest: inj_onD)
  have p: "plain_name (fst e)" "plain_name (fst e')"
    "fst e \<noteq> fst e' @ ''.part''" "fst e' \<noteq> fst e @ ''.part''"
    using assms(1-3) by (auto simp: separate_names_def)
  show ?thesis by (rule under_disjoint [OF p(1,2) ne p(3,4)])
qed

lemma cut_short_later: "grows w w' \<Longrightarrow> cut_short w f \<Longrightarrow> cut_short w' f"
  by (auto simp: grows_def cut_short_def)

lemma whole_refl: "fs w' = fs w \<Longrightarrow> whole w w' lip node"
  by (auto simp: whole_def)

lemma whole_then_frame:
  assumes "whole w w1 lip node" and "\<forall>(q, f)\<in>destinations lip node. fs w' q = fs w1 q"
  shows "whole w w' lip node"
  using assms unfolding whole_def by fastforce

lemma frame_then_whole:
  assumes "\<forall>(q, f)\<in>destinations lip node. fs w1 q = fs w q" and "grows w w1"
    and "whole w1 w' lip node"
  shows "whole w w' lip node"
proof -
  have "fs w' q = fs w q \<or>
        (fs w' q = Some (LFile (concat (chunks f))) \<and> \<not> retr_raises f \<and> \<not> cut_short w f)"
    if m: "(q, f) \<in> destinations lip node" for q f
  proof -
    have a: "fs w1 q = fs w q" using assms(1) m by auto
    have "fs w' q = fs w1 q \<or>
        (fs w' q = Some (LFile (concat (chunks f))) \<and> \<not> retr_raises f \<and> \<not> cut_short w1 f)"
      using assms(3) m by (auto simp: whole_def)
    then show ?thesis
      using a cut_short_later [OF assms(2), of f] by auto
  qed
  then show ?thesis unfolding whole_def by blast
qed

lemma whole_file:
  "whole w (fst (process_file s limit rip lip fa f (w, count, shown))) lip (RFile f)"
  using process_file_destination [where s = s and limit = limit and rip = rip and lip = lip
      and fa = fa and f = f and w = w and count = count and shown = shown]
  by (auto simp: whole_def split_beta transfer_completes)

lemma whole_no_directory:
  assumes "plain_name n" and "named_tree (RDir d cs)"
  shows "whole w (fst (process_file s limit rip (os_path_join lp n) fa f (w, count, shown)))
           (os_path_join lp n) (RDir d cs)"
proof -
  have "fs (fst (process_file s limit rip (os_path_join lp n) fa f (w, count, shown))) q = fs w q"
    if "(q, g) \<in> destinations (os_path_join lp n) (RDir d cs)" for q g
  proof -
    from destinations_children [OF assms(2) that] obtain e
      where e: "plain_name (fst e)" "q \<in> under (os_path_join (os_path_join lp n) (fst e))"
      by auto
    from below_not_part [OF assms(1) e] show ?thesis by (intro process_file_frame)
  qed
  then show ?thesis by (auto simp: whole_def)
qed

lemma traversal_whole:
  "named_tree node \<Longrightarrow> whole w (fst (download_dir_recursive s rp lp node w)) lp node"
  "good_items items \<Longrightarrow> skip_log_limit s = Some limit \<Longrightarrow>
     \<forall>i\<in>set items.
       whole (fst acc) (fst (process_items s rp lp limit items acc))
         (os_path_join lp (fst i)) (snd (snd i))"
proof (induction s rp lp node w and s rp lp limit items acc
       rule: download_dir_recursive_process_items.induct)
  case (1 s rp lp f w)
  then show ?case by (simp add: whole_def emit_def cmd_def)
next
  case (2 s rp lp d cs w)
  let ?w2 = "if \<not> os_path_exists (fs w) lp
             then (cmd (CWD rp) w)\<lparr>fs := os_makedirs (fs w) lp\<rparr> else cmd (CWD rp) w"
  let ?res = "fst (download_dir_recursive s rp lp (RDir d cs) w)"
  have st: "separate_names (map fst cs)" "\<forall>e\<in>set cs. named_tree (snd e)"
    using "2.prems"(1) by simp_all
  have below: "q \<noteq> lp" if "(q, f) \<in> destinations lp (RDir d cs)" for q f
    using destinations_children [OF "2.prems"(1) that] parent_not_under [of _ lp] by blast
  show ?case
  proof (cases "cwd_ok d")
    case False
    then show ?thesis by (simp add: whole_refl emit_def cmd_def)
  next
    case True
    obtain items w3 where ld: "list_directory d cs ?w2 = (items, w3)"
      by (cases "list_directory d cs ?w2")
    have fs2: "\<forall>q. q \<noteq> lp \<longrightarrow> fs ?w2 q = fs w q"
      by (simp add: cmd_def os_makedirs_def)
    have g2: "grows w ?w2" by (simp add: grows_def cmd_def)
    have w3: "fs w3 = fs ?w2" "grows ?w2 w3"
      using list_directory_state [where d = d and cs = cs and w = ?w2] ld by simp_all
    have g3: "grows w w3" by (rule grows_trans [OF g2 w3(2)])
    have fs3: "fs w3 q = fs w q" if "(q, f) \<in> destinations lp (RDir d cs)" for q f
      using below [OF that] fs2 w3(1) by simp
    note li = list_directory_items [OF st, where d = d and w = ?w2]
    have good: "good_items items" using li(1) ld by simp
    have shape: "map entry_of items = cs \<or> map entry_of items = filter not_dots cs \<or> items = []"
      using li(2) ld by simp
    have inside: "entry_of i \<in> set cs" if "i \<in> set items" for i
    proof -
      have "entry_of i \<in> set (map entry_of items)" using that by simp
      moreover have "set (map entry_of items) \<subseteq> set cs"
      proof -
        consider (a) "map entry_of items = cs" | (b) "map entry_of items = filter not_dots cs"
          | (c) "items = []"
          using shape by blast
        then show ?thesis
        proof cases
          case a
          then show ?thesis by (metis subset_refl)
        next
          case b
          then show ?thesis by (metis filter_is_subset)
        next
          case c
          then show ?thesis by simp
        qed
      qed
      ultimately show ?thesis by blast
    qed
    show ?thesis
    proof (cases "skip_log_limit s")
      case None
      have "fs ?res = fs w3"
        using True ld None by (simp add: emit_def)
      then have "fs ?res q = fs w q" if "(q, f) \<in> destinations lp (RDir d cs)" for q f
        using fs3 [OF that] by simp
      then show ?thesis unfolding whole_def by blast
    next
      case (Some limit)
      obtain w4 count shown where pi: "process_items s rp lp limit items (w3, 0, 0) = (w4, count, shown)"
        by (cases "process_items s rp lp limit items (w3, 0, 0)")
      have res: "?res = w4" using True ld Some pi by simp
      have p: "pass s lp items w3 0 w4 count"
        using traversal_pass(2) [OF good Some, where lp = lp and acc = "(w3, 0, 0)" and rp = rp] pi by simp
      have ih: "\<forall>i\<in>set items. whole w3 w4 (os_path_join lp (fst i)) (snd (snd i))"
        using "2.IH" [OF _ ld [symmetric] Some good Some] True pi by simp
      have "whole w w4 (os_path_join lp (fst e)) (snd e)" if e: "e \<in> set cs" for e
      proof (cases "e \<in> entry_of ` set items")
        case True
        then obtain i where i: "i \<in> set items" "entry_of i = e" by auto
        have a: "whole w3 w4 (os_path_join lp (fst e)) (snd e)"
          using ih i by (auto simp: entry_of_def)
        have b: "\<forall>(q, f)\<in>destinations (os_path_join lp (fst e)) (snd e). fs w3 q = fs w q"
          using fs3 e by auto
        show ?thesis by (rule frame_then_whole [OF b g3 a])
      next
        case False
        have "fs w4 q = fs w q" if m: "(q, f) \<in> destinations (os_path_join lp (fst e)) (snd e)" for q f
        proof -
          have pe: "plain_name (fst e)" using st(1) e by (simp add: separate_names_def)
          have ne: "named_tree (snd e)" using st(2) e by simp
          have u: "q \<in> under (os_path_join lp (fst e))"
            by (rule destinations_under [OF pe ne m])
          have "q \<notin> under (os_path_join lp (fst i))" if i: "i \<in> set items" for i
          proof -
            have "entry_of i \<noteq> e" using False i by auto
            from separate_entries [OF st(1) e inside [OF i] this [symmetric], of lp]
            show ?thesis using u by (auto simp: entry_of_def)
          qed
          then have "fs w4 q = fs w3 q" using p by (simp add: pass_def)
          moreover have "fs w3 q = fs w q" using fs3 e m by auto
          ultimately show ?thesis by simp
        qed
        then show ?thesis unfolding whole_def by blast
      qed
      then show ?thesis unfolding res whole_def by auto
    qed
  qed
next
  case (3 s rp lp limit acc)
  then show ?case by simp
next
  case (4 s rp lp limit name fa node rest w count skip_logs_shown)
  let ?i = "(name, fa, node)"
  let ?lip = "os_path_join lp name"
  note g = good_items_Cons [OF "4.prems"(1)]
  have lim: "skip_log_limit s \<noteq> None" using "4.prems"(2) by simp
  have step: "\<forall>j\<in>set (?i # rest).
      whole w (fst (process_items s rp lp limit rest (w1, c1, sh))) (os_path_join lp (fst j)) (snd (snd j))"
    if head: "pass s lp [?i] w count w1 c1" and first: "whole w w1 ?lip node"
      and ih: "\<forall>j\<in>set rest. whole w1 (fst (process_items s rp lp limit rest (w1, c1, sh)))
                 (os_path_join lp (fst j)) (snd (snd j))"
    for w1 c1 sh
  proof -
    let ?w' = "fst (process_items s rp lp limit rest (w1, c1, sh))"
    have tail: "pass s lp rest w1 c1 ?w' (fst (snd (process_items s rp lp limit rest (w1, c1, sh))))"
      using traversal_pass(2) [OF g(1) "4.prems"(2), where lp = lp and acc = "(w1, c1, sh)" and rp = rp] by simp
    have g1: "grows w w1" using head by (simp add: pass_def)
    have a: "whole w ?w' ?lip node"
    proof (rule whole_then_frame [OF first])
      have "fs ?w' q = fs w1 q" if "(q, f) \<in> destinations ?lip node" for q f
      proof -
        have "q \<in> under ?lip" using destinations_under [OF _ _ that] g(2,3) by simp
        then have "\<forall>j\<in>set rest. q \<notin> under (os_path_join lp (fst j))" using g(6) by auto
        then show ?thesis using tail by (simp add: pass_def)
      qed
      then show "\<forall>(q, f)\<in>destinations ?lip node. fs ?w' q = fs w1 q" by blast
    qed
    have b: "whole w ?w' (os_path_join lp (fst j)) (snd (snd j))" if j: "j \<in> set rest" for j
    proof (rule frame_then_whole [OF _ g1])
      show "whole w1 ?w' (os_path_join lp (fst j)) (snd (snd j))" using ih j by blast
      have "fs w1 q = fs w q" if "(q, f) \<in> destinations (os_path_join lp (fst j)) (snd (snd j))" for q f
      proof -
        have "plain_name (fst j)" "named_tree (snd (snd j))" using g(6) j by simp_all
        from destinations_under [OF this that] have "q \<in> under (os_path_join lp (fst j))" .
        then have "q \<notin> under ?lip" using g(6) j by auto
        then show ?thesis using head by (simp add: pass_def)
      qed
      then show "\<forall>(q, f)\<in>destinations (os_path_join lp (fst j)) (snd (snd j)). fs w1 q = fs w q"
        by blast
    qed
    show ?thesis using a b by simp
  qed
  show ?case
  proof (cases "name = ''.'' \<or> name = ''..''")
    case True
    have head: "pass s lp [?i] w count w count"
      using True by (intro pass_dots) (auto simp: not_dots_def entry_of_def)
    have first: "whole w w ?lip node" by (simp add: whole_refl)
    have ih: "\<forall>j\<in>set rest. whole w (fst (process_items s rp lp limit rest (w, count, skip_logs_shown)))
                 (os_path_join lp (fst j)) (snd (snd j))"
      using "4.IH"(1) [OF True g(1) "4.prems"(2)] by simp
    show ?thesis using step [OF head first ih] True by simp
  next
    case False
    show ?thesis
    proof (cases "ftype fa")
      case TDir
      obtain w1 c where r: "download_dir_recursive s (remote_item_path rp name) ?lip node w = (w1, c)"
        by (cases "download_dir_recursive s (remote_item_path rp name) ?lip node w")
      have k: "kind node = TDir" using g(4) TDir by simp
      have dp: "dir_pass s ?lip node w w1 c"
        using traversal_pass(1) [where node = node and s = s and lp = ?lip and w = w
            and rp = "remote_item_path rp name"] g(3) r by simp
      have head: "pass s lp [?i] w count w1 (count + c)"
        using pass_dir [OF _ _ k lim dp] g(2,3) False by simp
      have first: "whole w w1 ?lip node"
        using "4.IH"(2) [OF False TDir] g(3) r by simp
      have ih: "\<forall>j\<in>set rest. whole w1 (fst (process_items s rp lp limit rest (w1, count + c, skip_logs_shown)))
                 (os_path_join lp (fst j)) (snd (snd j))"
        using "4.IH"(3) [OF False TDir r [symmetric] g(1) "4.prems"(2)] by simp
      show ?thesis using step [OF head first ih] False TDir r by simp
    next
      case TFile
      let ?acc = "process_file s limit (remote_item_path rp name) ?lip fa (as_file node)
                    (w, count, skip_logs_shown)"
      obtain w1 c1 sh where acc: "?acc = (w1, c1, sh)" by (cases ?acc)
      have head: "pass s lp [?i] w count w1 c1"
        using pass_file [where n = name and node = node and fa = fa and s = s and w = w and lp = lp
            and c = count and limit = limit and rip = "remote_item_path rp name"
            and sh = skip_logs_shown]
          g(2,4,5) False TFile acc by simp
      have first: "whole w w1 ?lip node"
      proof (cases node)
        case (RFile f)
        then show ?thesis
          using whole_file [where w = w and s = s and limit = limit
              and rip = "remote_item_path rp name" and lip = ?lip and fa = fa and f = f
              and count = count and shown = skip_logs_shown] acc
          by simp
      next
        case (RDir d cs)
        then show ?thesis
          using whole_no_directory [where n = name and d = d and cs = cs and w = w and s = s
              and limit = limit and rip = "remote_item_path rp name" and lp = lp and fa = fa
              and f = "as_file node" and count = count and shown = skip_logs_shown] g(2,3) acc
          by simp
      qed
      have ih: "\<forall>j\<in>set rest. whole w1 (fst (process_items s rp lp limit rest (w1, c1, sh)))
                 (os_path_join lp (fst j)) (snd (snd j))"
        using "4.IH"(4) [OF False TFile g(1) "4.prems"(2)] acc by simp
      show ?thesis using step [OF head first ih] False TFile acc by simp
    next
      case TOther
      then show ?thesis using g(4) kind_not_other [of node] by simp
    qed
  qed
qed

text \<open>
  C2, as the claim states it, fails: the temporary path of \<^verbatim>\<open>a\<close> is the destination of
  \<^verbatim>\<open>a.part\<close>. Over a mirror that holds the whole of \<^verbatim>\<open>a.part\<close>, a traversal in which the
  transfer of \<^verbatim>\<open>a\<close> is cancelled at its second block leaves the first block of \<^verbatim>\<open>a\<close> at the
  destination of \<^verbatim>\<open>a.part\<close>.
\<close>

theorem destination_overwritten_counterexample:
  "fs (fst (download_dir_recursive default_settings ''/data'' ''mirror'' cancelled_part_tree
              (connected_state part_local))) ''mirror/a.part'' = Some (LFile ''ab'')
   \<and> fs (connected_state part_local) ''mirror/a.part'' = Some (LFile ''xxxx'')
   \<and> (''mirror/a.part'', plain_file [''xxxx'']) \<in> destinations ''mirror'' cancelled_part_tree"
  by (simp add: cancelled_part_tree_def part_local_def cancelled_file_def paths_part_tree
        paths_two_dir_tree traversal_unfold)

text \<open>
  C2, amended: in a remote tree in which the names of every directory are path components,
  pairwise different and none of them another one followed by \<^verbatim>\<open>.part\<close>, a traversal from
  any state leaves the destination of every remote file either as it was before the
  traversal or holding the whole content of that file, whose retrieve did not raise and
  was not cut short by a stop; so after an interrupted retrieve the destination does not
  exist or holds what it held. And whatever the names are, handling one file changes no
  local path other than its destination and its temporary path (the destination followed
  by \<^verbatim>\<open>.part\<close>), and changes the destination only by moving there the whole content of a
  completed transfer, which is then counted.
\<close>

theorem destination_never_partial:
  assumes "named_tree node"
  shows "(\<forall>(q, f)\<in>destinations lp node.
            fs (fst (download_dir_recursive s rp lp node w)) q = fs w q \<or>
            (fs (fst (download_dir_recursive s rp lp node w)) q = Some (LFile (concat (chunks f))) \<and>
             \<not> retr_raises f \<and> \<not> cut_short w f))
    \<and> (case process_file s limit rip lip fa g (w, count, shown) of
         (w', count', shown') \<Rightarrow>
           (\<forall>p. p \<noteq> lip \<and> p \<noteq> lip @ ''.part'' \<longrightarrow> fs w' p = fs w p) \<and>
           ((count' = count \<and> fs w' lip = fs w lip) \<or>
            (count' = Suc count \<and> fs w' lip = Some (LFile (concat (chunks g))) \<and>
             \<not> retr_raises g \<and> \<not> cut_short w g)))"
proof
  show "\<forall>(q, f)\<in>destinations lp node.
            fs (fst (download_dir_recursive s rp lp node w)) q = fs w q \<or>
            (fs (fst (download_dir_recursive s rp lp node w)) q = Some (LFile (concat (chunks f))) \<and>
             \<not> retr_raises f \<and> \<not> cut_short w f)"
    using traversal_whole(1) [OF assms, of w s rp lp] by (simp add: whole_def)
  show "case process_file s limit rip lip fa g (w, count, shown) of
         (w', count', shown') \<Rightarrow>
           (\<forall>p. p \<noteq> lip \<and> p \<noteq> lip @ ''.part'' \<longrightarrow> fs w' p = fs w p) \<and>
           ((count' = count \<and> fs w' lip = fs w lip) \<or>
            (count' = Suc count \<and> fs w' lip = Some (LFile (concat (chunks g))) \<and>
             \<not> retr_raises g \<and> \<not> cut_short w g))"
    using process_file_destination [where s = s and limit = limit and rip = rip and lip = lip
        and fa = fa and f = g and w = w and count = count and shown = shown]
    by (auto simp: split_beta transfer_completes)
qed

theorem destination_never_partial_witness:
  "fs (fst (download_dir_recursive default_settings ''/data'' ''mirror'' interrupted_tree
              (connected_state old_local))) ''mirror/a'' = Some (LFile ''previous'')
   \<and> named_tree interrupted_tree"
proof -
  have 1: "named_tree interrupted_tree"
    by (simp add: interrupted_tree_def separate_names_def plain_name_def)
  have 2: "(''mirror/a'', interrupted_file) \<in> destinations ''mirror'' interrupted_tree"
    by (simp add: interrupted_tree_def os_path_join_def)
  have 3: "retr_raises interrupted_file" by (simp add: interrupted_file_def)
  have 4: "fs (connected_state old_local) ''mirror/a'' = Some (LFile ''previous'')"
    by (simp add: connected_state_def init_state_def old_local_def)
  note T = destination_never_partial [OF 1, where lp = "''mirror''" and s = default_settings
      and rp = "''/data''" and w = "connected_state old_local", THEN conjunct1, THEN bspec, OF 2]
  show ?thesis using T 1 3 4 by simp
qed

end
